theory Spec2Isabelle
  imports Main "HOL-Library.AList"
begin

section \<open>Python strings and integers used by pdns_redis.py\<close>

text \<open>
  The program is Python 2: its strings are byte strings, modelled as \<open>string\<close>.
  The few built-ins the program relies on (\<open>str.upper\<close>, \<open>str.lower\<close>,
  \<open>str.strip\<close>, \<open>str.split\<close>, \<open>str.join\<close>, \<open>int\<close>, \<open>str\<close>, \<open>repr\<close>) are
  written out here for ASCII byte strings.
\<close>

definition TAB :: char where
  "TAB = CHR 0x09"

definition isspace :: "char \<Rightarrow> bool" where
  "isspace c = (c = CHR '' '' \<or> c = CHR 0x09 \<or> c = CHR 0x0A \<or> c = CHR 0x0B
                \<or> c = CHR 0x0C \<or> c = CHR 0x0D)"

definition strip :: "string \<Rightarrow> string" where
  "strip s = rev (dropWhile isspace (rev (dropWhile isspace s)))"

definition ascii_lowercase :: string where
  "ascii_lowercase = ''abcdefghijklmnopqrstuvwxyz''"

definition ascii_uppercase :: string where
  "ascii_uppercase = ''ABCDEFGHIJKLMNOPQRSTUVWXYZ''"

definition upper_char :: "char \<Rightarrow> char" where
  "upper_char c =
     (case map_of (zip ascii_lowercase ascii_uppercase) c of
        None \<Rightarrow> c
      | Some u \<Rightarrow> u)"

definition lower_char :: "char \<Rightarrow> char" where
  "lower_char c =
     (case map_of (zip ascii_uppercase ascii_lowercase) c of
        None \<Rightarrow> c
      | Some l \<Rightarrow> l)"

definition upper :: "string \<Rightarrow> string" where
  "upper s = map upper_char s"

definition lower :: "string \<Rightarrow> string" where
  "lower s = map lower_char s"

definition startswith :: "string \<Rightarrow> string \<Rightarrow> bool" where
  "startswith s p = (take (length p) s = p)"

text \<open>\<open>sep.join(parts)\<close>.\<close>

fun join :: "string \<Rightarrow> string list \<Rightarrow> string" where
  "join sep [] = []"
| "join sep [x] = x"
| "join sep (x # y # ys) = x @ sep @ join sep (y # ys)"

text \<open>
  \<open>a, b = s.split(c, 1)\<close>: the split at the first \<open>c\<close>, unpacked into two names.
  When \<open>s\<close> holds no \<open>c\<close> the split has one element and the unpacking raises
  ValueError: that is \<open>None\<close> here.
\<close>

definition split_once :: "char \<Rightarrow> string \<Rightarrow> (string \<times> string) option" where
  "split_once c s =
     (case dropWhile (\<lambda>x. x \<noteq> c) s of
        [] \<Rightarrow> None
      | _ # rest \<Rightarrow> Some (takeWhile (\<lambda>x. x \<noteq> c) s, rest))"

text \<open>\<open>s.split(c)\<close> with no limit: always at least one part.\<close>

fun split_all :: "char \<Rightarrow> string \<Rightarrow> string list" where
  "split_all c [] = [[]]"
| "split_all c (x # xs) =
     (if x = c then [] # split_all c xs
      else (case split_all c xs of
              p # ps \<Rightarrow> (x # p) # ps
            | [] \<Rightarrow> [[x]]))"

subsection \<open>Decimal integers\<close>

definition DIGITS :: "(char \<times> nat) list" where
  "DIGITS = zip ''0123456789'' [0, 1, 2, 3, 4, 5, 6, 7, 8, 9]"

definition digit_val :: "char \<Rightarrow> nat option" where
  "digit_val c = map_of DIGITS c"

definition digit_char :: "nat \<Rightarrow> char" where
  "digit_char d =
     (case map_of (map (\<lambda>(c, v). (v, c)) DIGITS) d of
        None \<Rightarrow> CHR ''9''
      | Some c \<Rightarrow> c)"

text \<open>The value of a digit string read left to right, \<open>None\<close> at the first non-digit.\<close>

fun digits_val :: "nat \<Rightarrow> string \<Rightarrow> nat option" where
  "digits_val acc [] = Some acc"
| "digits_val acc (c # cs) =
     (case digit_val c of
        None \<Rightarrow> None
      | Some d \<Rightarrow> digits_val (10 * acc + d) cs)"

text \<open>
  \<open>int(s)\<close> in base 10 on a byte string: surrounding whitespace is dropped, one sign is
  allowed, and at least one digit must follow with nothing else. \<open>None\<close> is the
  ValueError that \<open>int\<close> raises.
\<close>

definition py_int :: "string \<Rightarrow> int option" where
  "py_int s =
     (case strip s of
        [] \<Rightarrow> None
      | c # cs \<Rightarrow>
          if c = CHR ''-'' then
            (if cs = [] then None else map_option (\<lambda>n. - int n) (digits_val 0 cs))
          else if c = CHR ''+'' then
            (if cs = [] then None else map_option int (digits_val 0 cs))
          else map_option int (digits_val 0 (c # cs)))"

fun str_nat :: "nat \<Rightarrow> string" where
  "str_nat n = (if n < 10 then [digit_char n] else str_nat (n div 10) @ [digit_char (n mod 10)])"

declare str_nat.simps [simp del]

text \<open>\<open>str(n)\<close> of an integer.\<close>

definition str_int :: "int \<Rightarrow> string" where
  "str_int i = (if i < 0 then CHR ''-'' # str_nat (nat (- i)) else str_nat (nat i))"

subsection \<open>\<open>repr\<close> of a byte string and of a list of them\<close>

definition hex_char :: "nat \<Rightarrow> char" where
  "hex_char d =
     (if d < 10 then digit_char d
      else if d = 10 then CHR ''a'' else if d = 11 then CHR ''b''
      else if d = 12 then CHR ''c'' else if d = 13 then CHR ''d''
      else if d = 14 then CHR ''e'' else CHR ''f'')"

definition repr_char :: "char \<Rightarrow> char \<Rightarrow> string" where
  "repr_char quote c =
     (if c = quote \<or> c = CHR 0x5C then [CHR 0x5C, c]
      else if c = CHR 0x09 then [CHR 0x5C, CHR ''t'']
      else if c = CHR 0x0A then [CHR 0x5C, CHR ''n'']
      else if c = CHR 0x0D then [CHR 0x5C, CHR ''r'']
      else if (of_char c :: nat) < 32 \<or> (127 :: nat) \<le> of_char c then
        [CHR 0x5C, CHR ''x'', hex_char (of_char c div 16), hex_char (of_char c mod 16)]
      else [c])"

definition py_repr :: "string \<Rightarrow> string" where
  "py_repr s =
     (let quote = (if CHR 0x27 \<in> set s \<and> CHR 0x22 \<notin> set s then CHR 0x22 else CHR 0x27)
      in quote # concat (map (repr_char quote) s) @ [quote])"

definition repr_list :: "string list \<Rightarrow> string" where
  "repr_list xs = ''['' @ join '', '' (map py_repr xs) @ '']''"

section \<open>Errors\<close>

text \<open>
  The exceptions the program raises or lets through, each with the text that
  \<open>str(err)\<close> gives.
\<close>

datatype error =
    ArgumentError string
  | ValueError string
  | TypeError string
  | NameError string
  | IOError string
  | SystemExit int

fun err_str :: "error \<Rightarrow> string" where
  "err_str (ArgumentError m) = m"
| "err_str (ValueError m) = m"
| "err_str (TypeError m) = m"
| "err_str (NameError m) = m"
| "err_str (IOError m) = m"
| "err_str (SystemExit n) = str_int n"

text \<open>\<open>except Exception\<close> catches everything here except SystemExit.\<close>

fun is_Exception :: "error \<Rightarrow> bool" where
  "is_Exception (SystemExit n) = False"
| "is_Exception e = True"

definition int_literal_error :: "string \<Rightarrow> error" where
  "int_literal_error s = ValueError (''invalid literal for int() with base 10: '' @ py_repr s)"

definition unpack_error :: error where
  "unpack_error = ValueError ''need more than 1 value to unpack''"

section \<open>The store: MockRedis\<close>

text \<open>
  \<open>MockRedis.data\<close> is a dictionary from keys to hashes, a hash a dictionary from
  fields to byte strings. Both are association lists with distinct keys; the order of a
  list stands for the iteration order of the dictionary. Only the operations that
  pdns_redis.py calls are modelled.
\<close>

type_synonym hash = "(string \<times> string) list"
type_synonym store = "(string \<times> hash) list"

definition hget :: "store \<Rightarrow> string \<Rightarrow> string \<Rightarrow> string option" where
  "hget s key hkey =
     (case map_of s key of
        None \<Rightarrow> None
      | Some h \<Rightarrow> map_of h hkey)"

definition hgetall :: "store \<Rightarrow> string \<Rightarrow> hash" where
  "hgetall s key =
     (case map_of s key of
        None \<Rightarrow> []
      | Some h \<Rightarrow> h)"

definition hset :: "store \<Rightarrow> string \<Rightarrow> string \<Rightarrow> string \<Rightarrow> store" where
  "hset s key hkey val = AList.update key (AList.update hkey val (hgetall s key)) s"

text \<open>
  \<open>hincrby\<close>: a missing key gets an empty hash and a missing field the integer 0 before
  the sum is taken; a field that is present is read with \<open>int\<close>, which raises on a value
  that is no integer, before anything has been written.
\<close>

definition hincrby :: "store \<Rightarrow> string \<Rightarrow> string \<Rightarrow> int \<Rightarrow> error + (store \<times> int)" where
  "hincrby s key hkey val =
     (case hget s key hkey of
        None \<Rightarrow> Inr (hset s key hkey (str_int (0 + val)), 0 + val)
      | Some v \<Rightarrow>
          (case py_int v of
             None \<Rightarrow> Inl (int_literal_error v)
           | Some n \<Rightarrow> Inr (hset s key hkey (str_int (n + val)), n + val)))"

definition hdel :: "store \<Rightarrow> string \<Rightarrow> string \<Rightarrow> store \<times> bool" where
  "hdel s key hkey =
     (case map_of s key of
        None \<Rightarrow> (s, True)
      | Some h \<Rightarrow>
          if map_of h hkey \<noteq> None then (AList.update key (AList.delete hkey h) s, True)
          else (s, True))"

definition delete :: "store \<Rightarrow> string \<Rightarrow> store \<times> bool" where
  "delete s key =
     (if map_of s key \<noteq> None then (AList.delete key s, True) else (s, False))"

section \<open>QueryOp\<close>

definition VALID_RECORDS :: "string list" where
  "VALID_RECORDS = [''A'', ''AAAA'', ''NS'', ''MX'', ''CNAME'', ''SOA'', ''TXT'']"

definition REDIS_PREFIX :: string where
  "REDIS_PREFIX = ''pdns.''"

definition MAGIC_SELF_IP :: string where
  "MAGIC_SELF_IP = ''self''"

definition MAGIC_TEST_VALIDITY :: int where
  "MAGIC_TEST_VALIDITY = 60"

text \<open>The field \<open>'TXT\tQC'\<close> that counts the queries of a domain.\<close>

definition QC_FIELD :: string where
  "QC_FIELD = join [TAB] [''TXT'', ''QC'']"

text \<open>
  Python's truth of an optional string: \<open>None\<close> and the empty string are false.
  \<open>truthy\<close> gives the string when it counts as true.
\<close>

definition truthy :: "string option \<Rightarrow> string option" where
  "truthy x = (case x of None \<Rightarrow> None | Some s \<Rightarrow> if s = [] then None else Some s)"

record queryop =
  op_domain :: string
  op_record :: "string option"
  op_data :: "string option"

text \<open>
  \<open>QueryOp.__init__\<close>. The check of \<open>redis_pdns\<close> is on the context object, which the
  callers always pass; the store is an explicit argument of the operations below.
\<close>

definition QueryOp_init :: "string option \<Rightarrow> string option \<Rightarrow> string option \<Rightarrow> error + queryop" where
  "QueryOp_init domain rec dat =
     (case truthy domain of
        None \<Rightarrow> Inl (ArgumentError ''Domain is a required parameter.'')
      | Some d \<Rightarrow>
          Inr \<lparr> op_domain = lower d,
                op_record = map_option upper (truthy rec),
                op_data = dat \<rparr>)"

type_synonym answer = "string \<times> string \<times> string \<times> string"

text \<open>
  The three loops of \<open>Query\<close> over \<open>ddata\<close> differ only in the test that keeps an entry;
  \<open>scan\<close> is the loop, with the test as an argument. Every entry is split before the
  test, so an entry without a tab raises in each of them.
\<close>

fun scan :: "(string \<Rightarrow> string \<Rightarrow> bool) \<Rightarrow> string \<Rightarrow> hash \<Rightarrow> error + answer list" where
  "scan keep dname [] = Inr []"
| "scan keep dname ((entry, ttl) # rest) =
     (case split_once TAB entry of
        None \<Rightarrow> Inl unpack_error
      | Some (rec, dat) \<Rightarrow>
          (case scan keep dname rest of
             Inl e \<Rightarrow> Inl e
           | Inr rv \<Rightarrow> Inr (if keep rec dat then (dname, rec, ttl, dat) # rv else rv)))"

definition pdns_key_of :: "queryop \<Rightarrow> string option \<Rightarrow> string" where
  "pdns_key_of q domain =
     REDIS_PREFIX @ (case truthy domain of None \<Rightarrow> op_domain q | Some d \<Rightarrow> d)"

definition domain_or_self :: "queryop \<Rightarrow> string option \<Rightarrow> string" where
  "domain_or_self q domain = (case truthy domain of None \<Rightarrow> op_domain q | Some d \<Rightarrow> d)"

text \<open>
  \<open>Query\<close> and \<open>WildQuery\<close> call each other. \<open>WildQuery\<close> always asks with wildcards
  off, which is what ends the recursion. Its \<open>except ValueError\<close> is around the whole
  body, so it also swallows a ValueError raised inside the inner \<open>Query\<close>; none of those
  is raised after a write, so the store is the one \<open>WildQuery\<close> was called with.
\<close>

function Query :: "queryop \<Rightarrow> string option \<Rightarrow> bool \<Rightarrow> store \<Rightarrow> error + (answer list \<times> store)"
  and WildQuery :: "queryop \<Rightarrow> string \<Rightarrow> store \<Rightarrow> error + (answer list \<times> store)"
where
  "Query q domain wildcards s =
     (let pdns_key = pdns_key_of q domain in
      case (truthy (op_record q), truthy (op_data q)) of
        (Some rec, Some dat) \<Rightarrow>
          (case hget s pdns_key (join [TAB] [rec, dat]) of
             Some ttl \<Rightarrow>
               (case hincrby s pdns_key QC_FIELD 1 of
                  Inl e \<Rightarrow> Inl e
                | Inr (s', n) \<Rightarrow> Inr ([(op_domain q, rec, ttl, dat)], s'))
           | None \<Rightarrow>
               if wildcards then WildQuery q (domain_or_self q domain) s
               else Inr ([], s))
      | (rec_opt, dat_opt) \<Rightarrow>
          (case (case rec_opt of
                   Some rec \<Rightarrow> scan (\<lambda>r d. r = rec) (op_domain q) (hgetall s pdns_key)
                 | None \<Rightarrow>
                     (case dat_opt of
                        Some dat \<Rightarrow> scan (\<lambda>r d. d = dat) (op_domain q) (hgetall s pdns_key)
                      | None \<Rightarrow> scan (\<lambda>r d. True) (op_domain q) (hgetall s pdns_key))) of
             Inl e \<Rightarrow> Inl e
           | Inr rv \<Rightarrow>
               if rv \<noteq> [] then
                 (case hincrby s pdns_key QC_FIELD 1 of
                    Inl e \<Rightarrow> Inl e
                  | Inr (s', n) \<Rightarrow> Inr (rv, s'))
               else if wildcards then WildQuery q (domain_or_self q domain) s
               else Inr ([], s)))"
| "WildQuery q domain s =
     (case split_once (CHR ''.'') domain of
        None \<Rightarrow> Inr ([], s)
      | Some (sub, dom1) \<Rightarrow>
          (case (if sub = ''*'' then split_once (CHR ''.'') dom1 else Some (sub, dom1)) of
             None \<Rightarrow> Inr ([], s)
           | Some (sub2, dom2) \<Rightarrow>
               (case Query q (Some (''*.'' @ dom2)) False s of
                  Inl (ValueError m) \<Rightarrow> Inr ([], s)
                | r \<Rightarrow> r)))"
  by pat_completeness auto
termination
  by (relation "measure (\<lambda>x. case x of Inl (q, d, w, s) \<Rightarrow> (if w then 2 else 0) | Inr _ \<Rightarrow> 1)")
     auto

declare Query.simps [simp del] WildQuery.simps [simp del]

section \<open>AddOp and DeleteOp\<close>

definition TTL_SUFFIXES :: "(char \<times> int) list" where
  "TTL_SUFFIXES =
     [(CHR ''M'', 60),
      (CHR ''H'', 60 * 60),
      (CHR ''D'', 60 * 60 * 24),
      (CHR ''W'', 60 * 60 * 24 * 7)]"

text \<open>\<open>int(x)\<close> where \<open>x\<close> may be \<open>None\<close>.\<close>

definition int_of_arg :: "string option \<Rightarrow> error + int" where
  "int_of_arg x =
     (case x of
        None \<Rightarrow> Inl (TypeError (''int() argument must be a string or a number, not '' @ py_repr ''NoneType''))
      | Some s \<Rightarrow>
          (case py_int s of
             None \<Rightarrow> Inl (int_literal_error s)
           | Some n \<Rightarrow> Inr n))"

text \<open>
  The seconds that \<open>AddOp.__init__\<close> computes from its \<open>ttl\<close> argument, before
  \<open>str\<close> is applied: the last character, in upper case, is looked up in TTL_SUFFIXES.
\<close>

definition decode_ttl :: "string option \<Rightarrow> error + int" where
  "decode_ttl ttl =
     (case truthy ttl of
        None \<Rightarrow> int_of_arg ttl
      | Some t \<Rightarrow>
          (case map_of TTL_SUFFIXES (upper_char (last t)) of
             None \<Rightarrow> int_of_arg ttl
           | Some m \<Rightarrow>
               (case int_of_arg (Some (butlast t)) of
                  Inl e \<Rightarrow> Inl e
                | Inr n \<Rightarrow> Inr (n * m))))"

record addop = queryop +
  op_ttl :: string

definition str_opt :: "string option \<Rightarrow> string" where
  "str_opt x = (case x of None \<Rightarrow> ''None'' | Some s \<Rightarrow> s)"

definition AddOp_init ::
  "string option \<Rightarrow> string option \<Rightarrow> string option \<Rightarrow> string option \<Rightarrow> error + addop" where
  "AddOp_init domain rec dat ttl =
     (case QueryOp_init domain rec dat of
        Inl e \<Rightarrow> Inl e
      | Inr q \<Rightarrow>
          if op_record q \<notin> Some ` set VALID_RECORDS then
            Inl (ArgumentError (''Invalid record type: '' @ str_opt (op_record q)))
          else if truthy (op_data q) = None then
            Inl (ArgumentError ''Cannot add empty records.'')
          else
            (case decode_ttl ttl of
               Inl e \<Rightarrow> Inl e
             | Inr n \<Rightarrow>
                 Inr \<lparr> op_domain = op_domain q, op_record = op_record q,
                       op_data = op_data q, op_ttl = str_int n \<rparr>))"

text \<open>
  \<open>AddOp.Run\<close>, which returns its message with the new store. The constructor has
  made sure that the record type and the data are set; \<open>join\<close> raises on \<open>None\<close>.
\<close>

definition AddOp_Run :: "addop \<Rightarrow> store \<Rightarrow> error + (string \<times> store)" where
  "AddOp_Run a s =
     (case (op_record a, op_data a) of
        (Some rec, Some dat) \<Rightarrow>
          Inr (''Added '' @ rec @ '' record to '' @ op_domain a @ ''.'',
               hset s (REDIS_PREFIX @ op_domain a) (join [TAB] [rec, dat]) (op_ttl a))
      | (None, _) \<Rightarrow> Inl (TypeError ''sequence item 0: expected string, NoneType found'')
      | (_, None) \<Rightarrow> Inl (TypeError ''sequence item 1: expected string, NoneType found''))"

text \<open>The loop of \<open>DeleteOp.Run\<close> over the answers of \<open>Query\<close>; every \<open>hdel\<close> counts.\<close>

fun hdel_each :: "string \<Rightarrow> answer list \<Rightarrow> store \<times> int \<Rightarrow> store \<times> int" where
  "hdel_each key [] (s, deleted) = (s, deleted)"
| "hdel_each key ((d, rec, ttl, dat) # rest) (s, deleted) =
     (case hdel s key (join [TAB] [rec, dat]) of
        (s', r) \<Rightarrow> hdel_each key rest (s', deleted + (if r then 1 else 0)))"

definition DeleteOp_Run :: "queryop \<Rightarrow> store \<Rightarrow> error + (string \<times> store)" where
  "DeleteOp_Run q s =
     (case (truthy (op_record q), truthy (op_data q)) of
        (None, None) \<Rightarrow>
          Inr (''Deleted all records for '' @ op_domain q @ ''.'',
               fst (delete s (REDIS_PREFIX @ op_domain q)))
      | (Some rec, Some dat) \<Rightarrow>
          (case hdel s (REDIS_PREFIX @ op_domain q) (join [TAB] [rec, dat]) of
             (s', r) \<Rightarrow>
               Inr (''Deleted '' @ str_int (0 + (if r then 1 else 0)) @ '' records from ''
                      @ op_domain q @ ''.'', s'))
      | _ \<Rightarrow>
          (case Query q None False s of
             Inl e \<Rightarrow> Inl e
           | Inr (rv, s1) \<Rightarrow>
               (case hdel_each (REDIS_PREFIX @ op_domain q) rv (s1, 0) of
                  (s', deleted) \<Rightarrow>
                    Inr (''Deleted '' @ str_int deleted @ '' records from ''
                           @ op_domain q @ ''.'', s'))))"

section \<open>PdnsChatter\<close>

definition BANNER :: string where
  "BANNER = ''pdns-redis.py, by Bjarni R. Einarsson''"

text \<open>
  The entry of \<open>magic_tests\<close> for a URL is a dictionary with the optional keys
  \<open>'time'\<close> and \<open>'ok'\<close>.
\<close>

record magic_result =
  mr_time :: "int option"
  mr_ok :: "bool option"

text \<open>
  The object's fields. \<open>outfile\<close> is the list of lines written so far (each \<open>reply\<close>
  writes its text and a newline and flushes); the input file is an argument of \<open>Run\<close>.
\<close>

record chatter =
  local_ip :: "string option"
  magic_tests :: "(string \<times> magic_result) list"
  wildcards_on :: bool
  log_buffer :: "string list"
  outfile :: "string list"

text \<open>
  What the program reads from outside the process: the body that \<open>urllib.urlopen\<close>
  returns for a URL (\<open>None\<close> when it raises), the address that
  \<open>socket.getaddrinfo(socket.gethostname(), None)\<close> yields and the address of the
  socket that \<open>SlowGetOwnIp\<close> connects (\<open>None\<close> when they raise).
\<close>

record world =
  urlopen :: "string \<Rightarrow> string option"
  host_addr :: "string option"
  sock_addr :: "string option"

definition PdnsChatter_init :: "bool \<Rightarrow> chatter" where
  "PdnsChatter_init wild =
     \<lparr> local_ip = None, magic_tests = [], wildcards_on = wild, log_buffer = [], outfile = [] \<rparr>"

definition reply :: "chatter \<Rightarrow> string \<Rightarrow> chatter" where
  "reply ch text = ch\<lparr> outfile := outfile ch @ [text] \<rparr>"

text \<open>
  \<open>readline\<close> on the lines still to be read, each as \<open>infile.readline()\<close> returns
  it; at the end of the input that is the empty string.
\<close>

definition readline :: "string list \<Rightarrow> error + (string \<times> string list)" where
  "readline infile =
     (case infile of
        [] \<Rightarrow> Inl (IOError ''EOF'')
      | line # rest \<Rightarrow> if length line = 0 then Inl (IOError ''EOF'') else Inr (strip line, rest))"

definition data_line :: "string \<Rightarrow> string \<Rightarrow> string \<Rightarrow> string \<Rightarrow> string" where
  "data_line d1 d2 d3 d4 = join [TAB] [''DATA'', d1, ''IN'', d2, d3, ''-1'', d4]"

definition SendMxOrSrv :: "chatter \<Rightarrow> string \<Rightarrow> string \<Rightarrow> string \<Rightarrow> string \<Rightarrow> chatter" where
  "SendMxOrSrv ch d1 d2 d3 d4 = reply ch (data_line d1 d2 d3 d4)"

text \<open>
  \<open>MagicTest(want, url, now)\<close> with the clock reading passed in. The entry of the URL
  is written back before the test result is looked at, so a failed test leaves its
  mark in \<open>magic_tests\<close>.
\<close>

definition MagicTest :: "world \<Rightarrow> chatter \<Rightarrow> string \<Rightarrow> string \<Rightarrow> int \<Rightarrow> error option \<times> chatter" where
  "MagicTest w ch want url now =
     (let result = (case map_of (magic_tests ch) url of
                      None \<Rightarrow> \<lparr> mr_time = None, mr_ok = None \<rparr>
                    | Some r \<Rightarrow> r);
          result' =
            (if (case mr_time result of None \<Rightarrow> 0 | Some t \<Rightarrow> t) < now - MAGIC_TEST_VALIDITY
             then \<lparr> mr_time = Some now,
                    mr_ok = Some (case urlopen w url of
                                    None \<Rightarrow> False
                                  | Some tdata \<Rightarrow> startswith tdata want) \<rparr>
             else result);
          ch' = ch\<lparr> magic_tests := AList.update url result' (magic_tests ch) \<rparr>
      in if \<not> (case mr_ok result' of None \<Rightarrow> False | Some b \<Rightarrow> b)
         then (Some (ValueError (''Failed self-test '' @ want @ '' != '' @ url)), ch')
         else (None, ch'))"

text \<open>
  \<open>SendRecord\<close>. With a colon in the data, \<open>record[3].split(':', 2)\<close> is unpacked
  into three names, which raises ValueError unless there are two colons; then the call
  \<open>self.MagicTest(want, test_url)\<close> evaluates the name \<open>want\<close>, which is bound
  nowhere (the split bound \<open>test_want\<close>), and that raises NameError before
  \<open>MagicTest\<close> is entered.
\<close>

definition SendRecord :: "chatter \<Rightarrow> answer \<Rightarrow> error option \<times> chatter" where
  "SendRecord ch r =
     (case r of (d, rec, ttl, dat) \<Rightarrow>
        if startswith dat MAGIC_SELF_IP then
          (if CHR '':'' \<in> set dat then
             (case split_once (CHR '':'') dat of
                None \<Rightarrow> (Some (ValueError ''need more than 1 value to unpack''), ch)
              | Some (magic, rest) \<Rightarrow>
                  (case split_once (CHR '':'') rest of
                     None \<Rightarrow> (Some (ValueError ''need more than 2 values to unpack''), ch)
                   | Some (test_want, test_url) \<Rightarrow>
                       (Some (NameError ''global name 'want' is not defined''), ch)))
           else
             (case truthy (local_ip ch) of
                None \<Rightarrow> (Some (ValueError ''Local IP address is unknown''), ch)
              | Some ip \<Rightarrow> (None, reply ch (data_line d rec ttl ip))))
        else (None, reply ch (data_line d rec ttl dat)))"

fun FlushLogBuffer_loop :: "chatter \<Rightarrow> string list \<Rightarrow> chatter" where
  "FlushLogBuffer_loop ch [] = ch"
| "FlushLogBuffer_loop ch (message # lb) =
     FlushLogBuffer_loop (reply ch (''LOG'' @ [TAB] @ message)) lb"

definition FlushLogBuffer :: "chatter \<Rightarrow> chatter" where
  "FlushLogBuffer ch = FlushLogBuffer_loop (ch\<lparr> log_buffer := [] \<rparr>) (log_buffer ch)"

definition SendLog :: "chatter \<Rightarrow> string \<Rightarrow> chatter" where
  "SendLog ch message = ch\<lparr> log_buffer := log_buffer ch @ [message] \<rparr>"

definition EndReply :: "chatter \<Rightarrow> chatter" where
  "EndReply ch = reply (FlushLogBuffer ch) ''END''"

definition SetLocalIp :: "chatter \<Rightarrow> string \<Rightarrow> chatter" where
  "SetLocalIp ch val =
     (if \<not> (val = ''0.0.0.0'' \<or> startswith val ''127.'' \<or> startswith val ''192.168.''
             \<or> startswith val ''10.'')
      then ch\<lparr> local_ip := Some val \<rparr>
      else ch)"

definition SlowGetOwnIp :: "world \<Rightarrow> chatter \<Rightarrow> chatter" where
  "SlowGetOwnIp w ch =
     (case sock_addr w of
        None \<Rightarrow> ch
      | Some a \<Rightarrow> SetLocalIp ch a)"

text \<open>
  \<open>SRV_SPLIT.split(s, 1)\<close> for the pattern \<open>[\s,]+\<close>: the text before and after the
  first run of whitespace and commas, or the text alone when there is no such run.
\<close>

definition srv_sep :: "char \<Rightarrow> bool" where
  "srv_sep c = (isspace c \<or> c = CHR '','')"

definition SRV_SPLIT :: "string \<Rightarrow> string list" where
  "SRV_SPLIT s =
     (case dropWhile (\<lambda>c. \<not> srv_sep c) s of
        [] \<Rightarrow> [s]
      | rest \<Rightarrow> [takeWhile (\<lambda>c. \<not> srv_sep c) s, dropWhile srv_sep rest])"

text \<open>The loop of \<open>Lookup\<close> over the records; an exception ends it where it is raised.\<close>

fun send_records :: "chatter \<Rightarrow> answer list \<Rightarrow> error option \<times> chatter" where
  "send_records ch [] = (None, ch)"
| "send_records ch ((d, rec, ttl, dat) # rest) =
     (if rec \<in> set [''MX'', ''SRV''] then
        send_records (SendMxOrSrv ch d rec ttl (join [TAB] (SRV_SPLIT dat))) rest
      else if rec \<noteq> ''TXT'' \<or> dat \<noteq> ''QC'' then
        (case SendRecord ch (d, rec, ttl, dat) of
           (Some e, ch') \<Rightarrow> (Some e, ch')
         | (None, ch') \<Rightarrow> send_records ch' rest)
      else send_records ch rest)"

definition discover_local_ip :: "world \<Rightarrow> chatter \<Rightarrow> string \<Rightarrow> chatter" where
  "discover_local_ip w ch q_local_ip =
     (if truthy (local_ip ch) = None then
        (let ch1 = SetLocalIp ch q_local_ip in
         if truthy (local_ip ch1) = None then
           (case host_addr w of
              None \<Rightarrow> ch1
            | Some a \<Rightarrow> SetLocalIp ch1 a)
         else ch1)
      else ch)"

text \<open>
  \<open>Lookup\<close> on the fields of a request, with the store that \<open>redis_pdns.BE()\<close>
  returns. It returns the exception raised, if any, with the object and the store as
  they are at that moment.
\<close>

definition Lookup :: "world \<Rightarrow> chatter \<Rightarrow> store \<Rightarrow> string list \<Rightarrow> error option \<times> chatter \<times> store" where
  "Lookup w ch s query =
     (case query of
        [pdns_qtype, domain, qclass, rtype, qid, remote_ip, q_local_ip] \<Rightarrow>
          (let ch1 = discover_local_ip w ch q_local_ip in
           if pdns_qtype = ''Q'' then
             (case (if domain = [] then Inr ([], s)
                    else if rtype = ''ANY'' then
                      (case QueryOp_init (Some domain) None None of
                         Inl e \<Rightarrow> Inl e
                       | Inr q \<Rightarrow> Query q None (wildcards_on ch1) s)
                    else
                      (case QueryOp_init (Some domain) (Some rtype) None of
                         Inl e \<Rightarrow> Inl e
                       | Inr q \<Rightarrow> Query q None (wildcards_on ch1) s)) of
                Inl e \<Rightarrow> (Some e, ch1, s)
              | Inr (records, s') \<Rightarrow>
                  (case send_records ch1 records of
                     (Some e, ch2) \<Rightarrow> (Some e, ch2, s')
                   | (None, ch2) \<Rightarrow> (None, EndReply ch2, s')))
           else
             (None,
              reply (FlushLogBuffer
                       (SendLog ch1 (''PowerDNS requested '' @ pdns_qtype @ '', we only do Q.'')))
                    ''FAIL'',
              s))
      | _ \<Rightarrow>
          (Some (ValueError (if length query < 7
                             then ''need more than '' @ str_int (int (length query)) @ '' values to unpack''
                             else ''too many values to unpack'')), ch, s))"

text \<open>
  What the \<open>while 1\<close> loop of \<open>Run\<close> does with one line that has been read: the
  \<open>try\<close> block and its handler. SystemExit is no \<open>Exception\<close> and would pass the
  handler.
\<close>

definition request_failed :: "chatter \<Rightarrow> string \<Rightarrow> chatter" where
  "request_failed ch message = reply (reply (FlushLogBuffer ch) (''LOG'' @ [TAB] @ message)) ''FAIL''"

definition handle_line :: "world \<Rightarrow> chatter \<Rightarrow> store \<Rightarrow> string \<Rightarrow> error option \<times> chatter \<times> store" where
  "handle_line w ch s line =
     (let query = split_all TAB line in
      if length query = 7 then
        (case Lookup w ch s query of
           (None, ch', s') \<Rightarrow> (None, ch', s')
         | (Some err, ch', s') \<Rightarrow>
             if is_Exception err
             then (None, request_failed ch' (''Internal Error: '' @ err_str err), s')
             else (Some err, ch', s'))
      else (None, request_failed ch (''PowerDNS sent bad request: '' @ repr_list query), s))"

text \<open>
  The loop itself, on the lines still to be read. It has no exit of its own: it ends
  with the exception that leaves it, which is the IOError of \<open>readline\<close> at the end
  of the input.
\<close>

fun main_loop :: "world \<Rightarrow> chatter \<Rightarrow> store \<Rightarrow> string list \<Rightarrow> error \<times> chatter \<times> store" where
  "main_loop w ch s [] = (IOError ''EOF'', ch, s)"
| "main_loop w ch s (raw # rest) =
     (case readline (raw # rest) of
        Inl e \<Rightarrow> (e, ch, s)
      | Inr (line, rest') \<Rightarrow>
          (case handle_line w ch s line of
             (Some e, ch', s') \<Rightarrow> (e, ch', s')
           | (None, ch', s') \<Rightarrow> main_loop w ch' s' rest))"

definition Run :: "world \<Rightarrow> chatter \<Rightarrow> store \<Rightarrow> string list \<Rightarrow> error \<times> chatter \<times> store" where
  "Run w ch s infile =
     (case readline infile of
        Inl e \<Rightarrow> (e, ch, s)
      | Inr (line1, rest) \<Rightarrow>
          if line1 \<noteq> ''HELO'' @ [TAB] @ ''2'' then
            (case readline rest of
               Inl e \<Rightarrow> (e, reply ch ''FAIL'', s)
             | Inr _ \<Rightarrow> (SystemExit 1, reply ch ''FAIL'', s))
          else
            (let ch1 = reply ch (''OK'' @ [TAB] @ BANNER);
                 ch2 = (if truthy (local_ip ch1) = None then SlowGetOwnIp w ch1 else ch1)
             in main_loop w ch2 s rest))"

section \<open>Notions used to state the properties\<close>

text \<open>
  The multiplier of a TTL suffix as the specification states it: M, H, D and W, in either
  case, stand for minutes, hours, days and weeks.
\<close>

definition spec_suffix_seconds :: "char \<Rightarrow> int option" where
  "spec_suffix_seconds c =
     (if c \<in> set ''Mm'' then Some 60
      else if c \<in> set ''Hh'' then Some 3600
      else if c \<in> set ''Dd'' then Some 86400
      else if c \<in> set ''Ww'' then Some 604800
      else None)"

text \<open>
  The query counter of a key as an integer: a missing field counts as 0, a field that
  holds no integer has no count.
\<close>

definition counter_of :: "store \<Rightarrow> string \<Rightarrow> int option" where
  "counter_of s key = (case hget s key QC_FIELD of None \<Rightarrow> Some 0 | Some v \<Rightarrow> py_int v)"

text \<open>A hash whose fields all hold the tab that separates the record type from the data.\<close>

definition fields_ok :: "hash \<Rightarrow> bool" where
  "fields_ok h = (\<forall>(f, v) \<in> set h. TAB \<in> set f)"

text \<open>
  The stores the program builds: under every key, every field of the hash holds a tab and
  the counter field, when present, holds an integer.
\<close>

definition store_ok :: "store \<Rightarrow> bool" where
  "store_ok s = (\<forall>k. fields_ok (hgetall s k) \<and> counter_of s k \<noteq> None)"

text \<open>
  The scan that \<open>Query\<close> runs over a hash when it has not both filters: by record type,
  else by data, else over everything.
\<close>

definition scan_for :: "queryop \<Rightarrow> hash \<Rightarrow> error + answer list" where
  "scan_for q h =
     (case truthy (op_record q) of
        Some rec \<Rightarrow> scan (\<lambda>r d. r = rec) (op_domain q) h
      | None \<Rightarrow>
          (case truthy (op_data q) of
             Some dat \<Rightarrow> scan (\<lambda>r d. d = dat) (op_domain q) h
           | None \<Rightarrow> scan (\<lambda>r d. True) (op_domain q) h))"

text \<open>The filters of a query accept an entry of record type \<open>r\<close> and data \<open>x\<close>.\<close>

definition accepts :: "queryop \<Rightarrow> string \<Rightarrow> string \<Rightarrow> bool" where
  "accepts q r x =
     ((case truthy (op_record q) of None \<Rightarrow> True | Some rec \<Rightarrow> r = rec)
      \<and> (case truthy (op_data q) of None \<Rightarrow> True | Some dat \<Rightarrow> x = dat))"

text \<open>
  The effect of a query that counts: the counter field of one key goes up by 1. And where
  the answers of a query come from: the hash of one key, each labelled with the domain of
  the query.
\<close>

definition counted :: "store \<Rightarrow> string \<Rightarrow> store \<Rightarrow> bool" where
  "counted s key s' =
     (\<exists>n. counter_of s key = Some n \<and> s' = hset s key QC_FIELD (str_int (n + 1)))"

definition answers_from :: "queryop \<Rightarrow> store \<Rightarrow> string \<Rightarrow> answer list \<Rightarrow> bool" where
  "answers_from q s key rv =
     (\<forall>(d, r, t, x) \<in> set rv. d = op_domain q \<and> (r @ [TAB] @ x, t) \<in> set (hgetall s key))"

text \<open>The hash fields that a list of answers stands for.\<close>

definition fields_of :: "answer list \<Rightarrow> string set" where
  "fields_of rv = (\<lambda>(d, r, t, x). join [TAB] [r, x]) ` set rv"

text \<open>The key that \<open>WildQuery\<close> asks for, when the domain can be split.\<close>

definition wild_key :: "string \<Rightarrow> string option" where
  "wild_key domain =
     (case split_once (CHR ''.'') domain of
        None \<Rightarrow> None
      | Some (sub, dom1) \<Rightarrow>
          (case (if sub = ''*'' then split_once (CHR ''.'') dom1 else Some (sub, dom1)) of
             None \<Rightarrow> None
           | Some (sub2, dom2) \<Rightarrow> Some (REDIS_PREFIX @ ''*.'' @ dom2)))"

text \<open>A protocol log line.\<close>

definition log_line :: "string \<Rightarrow> string" where
  "log_line message = ''LOG'' @ [TAB] @ message"

section \<open>Example inputs\<close>

text \<open>A query object for a domain, with an optional record type and no data.\<close>

definition q_of :: "string \<Rightarrow> string option \<Rightarrow> queryop" where
  "q_of d r = \<lparr> op_domain = d, op_record = r, op_data = None \<rparr>"

text \<open>
  Two A records and a counter at 41 for example.com, and one A record under the wildcard
  of bar.com.
\<close>

definition ex_store :: store where
  "ex_store =
     [(''pdns.example.com'',
       [(''A'' @ [TAB] @ ''1.2.3.4'', ''300''), (''A'' @ [TAB] @ ''5.6.7.8'', ''60''),
        (''TXT'' @ [TAB] @ ''QC'', ''41'')]),
      (''pdns.*.bar.com'', [(''A'' @ [TAB] @ ''9.9.9.9'', ''120'')])]"

text \<open>Records under the wildcard of c.d only.\<close>

definition ex_store2 :: store where
  "ex_store2 = [(''pdns.*.c.d'', [(''A'' @ [TAB] @ ''1.2.3.4'', ''300'')])]"

text \<open>
  The same with a counter left under the wildcard of b.c.d, as an add, a wildcard query
  and a delete with both filters leave it.
\<close>

definition ex_store5 :: store where
  "ex_store5 =
     [(''pdns.*.b.c.d'', [(''TXT'' @ [TAB] @ ''QC'', ''1'')]),
      (''pdns.*.c.d'', [(''A'' @ [TAB] @ ''1.2.3.4'', ''300'')])]"

text \<open>A counter at 5, a TXT record and an A record for example.com.\<close>

definition ex_store3 :: store where
  "ex_store3 =
     [(''pdns.example.com'',
       [(''TXT'' @ [TAB] @ ''QC'', ''5''), (''TXT'' @ [TAB] @ ''hello'', ''300''),
        (''A'' @ [TAB] @ ''1.2.3.4'', ''60'')])]"

text \<open>
  An A record and a counter for example.com, and for self.example.com an A record whose
  data is the self marker with a self-test: the expected prefix OK and a probe URL.
\<close>

definition ex_store4 :: store where
  "ex_store4 =
     [(''pdns.example.com'',
       [(''A'' @ [TAB] @ ''1.2.3.4'', ''300''), (''TXT'' @ [TAB] @ ''QC'', ''7'')]),
      (''pdns.self.example.com'',
       [(''A'' @ [TAB] @ ''self:OK:http://probe/'', ''300'')])]"

text \<open>A world in which every probe answers with a body that starts with OK.\<close>

definition ex_world :: world where
  "ex_world = \<lparr> urlopen = (\<lambda>url. Some ''OK running''), host_addr = None, sock_addr = None \<rparr>"

text \<open>A chatter object after the handshake, with its local address known.\<close>

definition ex_chatter :: chatter where
  "ex_chatter =
     \<lparr> local_ip = Some ''5.6.7.8'', magic_tests = [], wildcards_on = False,
       log_buffer = [], outfile = [] \<rparr>"

text \<open>Request lines as \<open>readline\<close> returns them: tab-separated, with the newline.\<close>

definition tabbed :: "string list \<Rightarrow> string" where
  "tabbed parts = join [TAB] parts @ [CHR 0x0A]"

definition ex_self_request :: string where
  "ex_self_request =
     tabbed [''Q'', ''self.example.com'', ''IN'', ''ANY'', ''-1'', ''1.2.3.4'', ''5.6.7.8'']"




section \<open>Decimal strings round-trip\<close>

lemma digit_val_digit_char: "d < 10 \<Longrightarrow> digit_val (digit_char d) = Some d"
  by (simp add: digit_val_def digit_char_def DIGITS_def)

lemma digit_char_not_space: "\<not> isspace (digit_char d)"
  by (simp add: digit_char_def DIGITS_def isspace_def)

lemma digit_char_not_sign: "digit_char d \<noteq> CHR ''-'' \<and> digit_char d \<noteq> CHR ''+''"
  by (simp add: digit_char_def DIGITS_def)

lemma digits_val_snoc:
  "digits_val acc (xs @ [c]) =
     (case digits_val acc xs of
        None \<Rightarrow> None
      | Some v \<Rightarrow> (case digit_val c of None \<Rightarrow> None | Some d \<Rightarrow> Some (10 * v + d)))"
  by (induction xs arbitrary: acc) (auto split: option.splits)

lemma digits_val_str_nat: "digits_val 0 (str_nat n) = Some n"
proof (induction n rule: str_nat.induct)
  case (1 n)
  show ?case
  proof (cases "n < 10")
    case True
    then show ?thesis
      by (subst str_nat.simps) (simp add: digit_val_digit_char)
  next
    case False
    with 1 have "digits_val 0 (str_nat (n div 10)) = Some (n div 10)" by simp
    with False show ?thesis
      by (subst str_nat.simps) (simp add: digits_val_snoc digit_val_digit_char)
  qed
qed

lemma str_nat_shape: "\<exists>d ds. str_nat n = digit_char d # ds \<and> (\<forall>c \<in> set ds. \<not> isspace c)"
proof (induction n rule: str_nat.induct)
  case (1 n)
  show ?case
  proof (cases "n < 10")
    case True
    then show ?thesis by (subst str_nat.simps) auto
  next
    case False
    with 1 obtain d ds where "str_nat (n div 10) = digit_char d # ds" "\<forall>c \<in> set ds. \<not> isspace c"
      by auto
    with False show ?thesis
      by (subst str_nat.simps) (auto simp: digit_char_not_space)
  qed
qed

lemma strip_no_space:
  assumes "\<forall>c \<in> set s. \<not> isspace c"
  shows "strip s = s"
proof -
  have a: "dropWhile isspace s = s" using assms by (cases s) auto
  have "\<forall>c \<in> set (rev s). \<not> isspace c" using assms by simp
  then have b: "dropWhile isspace (rev s) = rev s" by (cases "rev s") auto
  show ?thesis by (simp add: strip_def a b)
qed

lemma str_nat_no_space: "\<forall>c \<in> set (str_nat n). \<not> isspace c"
  using str_nat_shape[of n] by (auto simp: digit_char_not_space)

lemma py_int_digits:
  assumes "s = digit_char d # ds" and "\<forall>c \<in> set s. \<not> isspace c"
  shows "py_int s = map_option int (digits_val 0 s)"
proof -
  have "strip s = s" using assms(2) by (rule strip_no_space)
  then show ?thesis using assms(1) digit_char_not_sign[of d]
    by (simp add: py_int_def del: digits_val.simps)
qed

lemma py_int_minus_digits:
  assumes "s \<noteq> []" and "\<forall>c \<in> set s. \<not> isspace c"
  shows "py_int (CHR ''-'' # s) = map_option (\<lambda>n. - int n) (digits_val 0 s)"
proof -
  have "\<forall>c \<in> set (CHR ''-'' # s). \<not> isspace c" using assms(2) by (simp add: isspace_def)
  then have "strip (CHR ''-'' # s) = CHR ''-'' # s" by (rule strip_no_space)
  then show ?thesis using assms(1)
    by (simp add: py_int_def del: digits_val.simps)
qed

lemma py_int_str_int: "py_int (str_int i) = Some i"
proof (cases "i < 0")
  case True
  have "str_nat (nat (- i)) \<noteq> []" using str_nat_shape[of "nat (- i)"] by auto
  then have "py_int (CHR ''-'' # str_nat (nat (- i))) = map_option (\<lambda>n. - int n) (digits_val 0 (str_nat (nat (- i))))"
    using str_nat_no_space by (rule py_int_minus_digits)
  then show ?thesis using True by (simp add: str_int_def digits_val_str_nat)
next
  case False
  obtain d ds where sh: "str_nat (nat i) = digit_char d # ds" using str_nat_shape by blast
  have "py_int (str_nat (nat i)) = map_option int (digits_val 0 (str_nat (nat i)))"
    using sh str_nat_no_space by (rule py_int_digits)
  then show ?thesis using False by (simp add: str_int_def digits_val_str_nat)
qed

section \<open>Splitting a string\<close>

lemma dropWhile_neq_Cons:
  "dropWhile (\<lambda>x. x \<noteq> c) s = y # rest \<Longrightarrow>
     y = c \<and> s = takeWhile (\<lambda>x. x \<noteq> c) s @ c # rest"
  by (induction s) (auto split: if_splits)

lemma takeWhile_neq_notin: "c \<notin> set (takeWhile (\<lambda>x. x \<noteq> c) s)"
  by (induction s) auto

lemma split_once_Some:
  assumes "split_once c s = Some (a, b)"
  shows "s = a @ [c] @ b \<and> c \<notin> set a"
proof -
  from assms obtain y where d: "dropWhile (\<lambda>x. x \<noteq> c) s = y # b"
    and a: "a = takeWhile (\<lambda>x. x \<noteq> c) s"
    by (auto simp: split_once_def split: list.splits)
  from dropWhile_neq_Cons[OF d] a have "s = a @ [c] @ b" by simp
  moreover from a have "c \<notin> set a" by (simp add: takeWhile_neq_notin)
  ultimately show ?thesis by simp
qed

lemma split_parts:
  "c \<notin> set a \<Longrightarrow>
     dropWhile (\<lambda>x. x \<noteq> c) (a @ c # b) = c # b \<and> takeWhile (\<lambda>x. x \<noteq> c) (a @ c # b) = a"
  by (induction a) auto

lemma split_once_join:
  "c \<notin> set a \<Longrightarrow> split_once c (a @ [c] @ b) = Some (a, b)"
  using split_parts[of c a b] by (simp add: split_once_def)

lemma split_once_None: "split_once c s = None \<longleftrightarrow> c \<notin> set s"
proof
  assume "split_once c s = None"
  then have "dropWhile (\<lambda>x. x \<noteq> c) s = []"
    by (simp add: split_once_def split: list.splits)
  then show "c \<notin> set s" by auto
next
  assume "c \<notin> set s"
  then have "dropWhile (\<lambda>x. x \<noteq> c) s = []" by auto
  then show "split_once c s = None" unfolding split_once_def by (simp only: list.case)
qed

section \<open>The operations of the store\<close>

lemma hget_hset: "hget (hset s k f v) k' f' = (if k' = k \<and> f' = f then Some v else hget s k' f')"
  by (simp add: hget_def hset_def hgetall_def update_conv' split: option.splits)

lemma hgetall_hset:
  "hgetall (hset s k f v) k' = (if k' = k then AList.update f v (hgetall s k) else hgetall s k')"
  by (simp add: hset_def hgetall_def update_conv' split: option.splits)

lemma hget_hgetall: "hget s k f = map_of (hgetall s k) f"
  by (simp add: hget_def hgetall_def split: option.splits)

lemma hincrby_ok:
  assumes "counter_of s key = Some n"
  shows "hincrby s key QC_FIELD 1 = Inr (hset s key QC_FIELD (str_int (n + 1)), n + 1)"
  using assms by (auto simp: hincrby_def counter_of_def split: option.splits)

lemma hincrby_Inr:
  assumes "hincrby s key QC_FIELD 1 = Inr (s', m)"
  shows "\<exists>n. counter_of s key = Some n \<and> s' = hset s key QC_FIELD (str_int (n + 1)) \<and> m = n + 1"
  using assms by (auto simp: hincrby_def counter_of_def split: option.splits)


lemma counter_of_hset_QC: "counter_of (hset s key QC_FIELD (str_int n)) key = Some n"
  by (simp add: counter_of_def hget_hset py_int_str_int)

lemma counter_of_hset:
  "counter_of (hset s k f v) k =
     (if f = QC_FIELD then py_int v else counter_of s k)"
  by (simp add: counter_of_def hget_hset)

lemma QC_FIELD_eq: "QC_FIELD = ''TXT'' @ [TAB] @ ''QC''"
  by (simp add: QC_FIELD_def)

lemma QC_FIELD_tab: "TAB \<in> set QC_FIELD"
  by (simp add: QC_FIELD_def)

lemma hget_hdel:
  "hget (fst (hdel s k f)) k' f' = (if k' = k \<and> f' = f then None else hget s k' f')"
  by (auto simp: hdel_def hget_def update_conv' delete_conv' split: option.splits)

lemma snd_hdel: "snd (hdel s k f) = True"
  by (simp add: hdel_def split: option.splits)

lemma hgetall_hdel:
  "hgetall (fst (hdel s k f)) k' = (if k' = k then AList.delete f (hgetall s k) else hgetall s k')"
proof (cases "map_of s k")
  case None
  then show ?thesis by (simp add: hdel_def hgetall_def)
next
  case (Some h)
  show ?thesis
  proof (cases "map_of h f")
    case None
    then have "f \<notin> fst ` set h" by (simp add: map_of_eq_None_iff)
    then have "AList.delete f h = h" by simp
    with Some None show ?thesis by (simp add: hdel_def hgetall_def)
  next
    case (Some v)
    with \<open>map_of s k = Some h\<close> show ?thesis
      by (simp add: hdel_def hgetall_def update_conv')
  qed
qed

lemma map_of_delete_store:
  "map_of (fst (delete s k)) k' = (if k' = k then None else map_of s k')"
  by (auto simp: delete_def delete_conv')

lemma set_update_subset: "set (AList.update k v al) \<subseteq> insert (k, v) (set al)"
  by (induction al) auto

lemma set_delete_subset: "set (AList.delete k al) \<subseteq> set al"
  by (auto simp: AList.delete_eq)

lemma hdel_each_effect:
  "hdel_each key rv (s, c) = (s', c') \<Longrightarrow>
     c' = c + int (length rv)
     \<and> (\<forall>k f. hget s' k f = (if k = key \<and> f \<in> fields_of rv then None else hget s k f))"
proof (induction rv arbitrary: s c)
  case Nil
  then show ?case by (simp add: fields_of_def)
next
  case (Cons a rv)
  obtain d r t x where a: "a = (d, r, t, x)" by (cases a)
  let ?f = "join [TAB] [r, x]"
  obtain sa where hd: "hdel s key ?f = (sa, True)"
    using snd_hdel[of s key ?f] by (cases "hdel s key ?f") auto
  with Cons.prems a have step: "hdel_each key rv (sa, c + 1) = (s', c')" by simp
  from hget_hdel[of s key ?f] hd
  have sa: "\<forall>k' f'. hget sa k' f' = (if k' = key \<and> f' = ?f then None else hget s k' f')"
    by simp
  from Cons.IH[OF step] have c': "c' = c + 1 + int (length rv)"
    and h: "\<forall>k f. hget s' k f = (if k = key \<and> f \<in> fields_of rv then None else hget sa k f)"
    by auto
  have "fields_of (a # rv) = insert ?f (fields_of rv)" using a by (simp add: fields_of_def)
  with c' h sa show ?case by auto
qed

section \<open>TTL decoding\<close>

lemma upper_char_eq_M: "upper_char c = CHR ''M'' \<longleftrightarrow> c \<in> set ''Mm''"
  by (simp add: upper_char_def ascii_lowercase_def ascii_uppercase_def)

lemma upper_char_eq_H: "upper_char c = CHR ''H'' \<longleftrightarrow> c \<in> set ''Hh''"
  by (simp add: upper_char_def ascii_lowercase_def ascii_uppercase_def)

lemma upper_char_eq_D: "upper_char c = CHR ''D'' \<longleftrightarrow> c \<in> set ''Dd''"
  by (simp add: upper_char_def ascii_lowercase_def ascii_uppercase_def)

lemma upper_char_eq_W: "upper_char c = CHR ''W'' \<longleftrightarrow> c \<in> set ''Ww''"
  by (simp add: upper_char_def ascii_lowercase_def ascii_uppercase_def)

lemma suffix_lookup:
  "map_of TTL_SUFFIXES u =
     (if u = CHR ''M'' then Some 60 else if u = CHR ''H'' then Some 3600
      else if u = CHR ''D'' then Some 86400 else if u = CHR ''W'' then Some 604800 else None)"
  by (simp add: TTL_SUFFIXES_def)

lemma suffix_lookup_spec: "map_of TTL_SUFFIXES (upper_char c) = spec_suffix_seconds c"
  unfolding suffix_lookup spec_suffix_seconds_def
  by (simp only: upper_char_eq_M upper_char_eq_H upper_char_eq_D upper_char_eq_W)

lemma decode_ttl_suffixed:
  "spec_suffix_seconds c = Some m \<Longrightarrow>
   decode_ttl (Some (pre @ [c])) =
     (case py_int pre of None \<Rightarrow> Inl (int_literal_error pre) | Some n \<Rightarrow> Inr (n * m))"
  by (simp add: decode_ttl_def truthy_def int_of_arg_def suffix_lookup_spec split: option.splits)

lemma decode_ttl_plain:
  "spec = [] \<or> spec_suffix_seconds (last spec) = None \<Longrightarrow>
   decode_ttl (Some spec) =
     (case py_int spec of None \<Rightarrow> Inl (int_literal_error spec) | Some n \<Rightarrow> Inr n)"
  by (auto simp add: decode_ttl_def truthy_def int_of_arg_def suffix_lookup_spec split: option.splits)

lemma AddOp_init_ttl_error:
  "decode_ttl ttl = Inl e \<Longrightarrow> \<exists>e'. AddOp_init d r x ttl = Inl e'"
  by (simp add: AddOp_init_def split: sum.splits)

text \<open>
  C2. A TTL specification that ends in M, H, D or W, in either case, decodes to the
  integer that \<open>int\<close> reads from the rest, times 60, 3600, 86400 or 604800; any other
  specification decodes to the integer that \<open>int\<close> reads from the whole of it. When
  \<open>int\<close> rejects the numeric part, the decoding raises its ValueError and the
  constructor of AddOp fails. "5M", "1H", "1D", "1W" and "120" decode to 300, 3600,
  86400, 604800 and 120.
\<close>

theorem decode_ttl_spec:
  "(spec_suffix_seconds c = Some m \<and> py_int pre = Some n \<longrightarrow>
      decode_ttl (Some (pre @ [c])) = Inr (n * m))
   \<and> ((spec = [] \<or> spec_suffix_seconds (last spec) = None) \<and> py_int spec = Some k \<longrightarrow>
      decode_ttl (Some spec) = Inr k)
   \<and> (spec_suffix_seconds c' \<noteq> None \<and> py_int pre' = None \<longrightarrow>
      decode_ttl (Some (pre' @ [c'])) = Inl (int_literal_error pre')
      \<and> (\<exists>e. AddOp_init d r x (Some (pre' @ [c'])) = Inl e))
   \<and> ((spec' = [] \<or> spec_suffix_seconds (last spec') = None) \<and> py_int spec' = None \<longrightarrow>
      decode_ttl (Some spec') = Inl (int_literal_error spec')
      \<and> (\<exists>e. AddOp_init d r x (Some spec') = Inl e))
   \<and> decode_ttl (Some ''5M'') = Inr 300
   \<and> decode_ttl (Some ''1H'') = Inr 3600
   \<and> decode_ttl (Some ''1D'') = Inr 86400
   \<and> decode_ttl (Some ''1W'') = Inr 604800
   \<and> decode_ttl (Some ''120'') = Inr 120"
proof -
  have a: "spec_suffix_seconds c = Some m \<and> py_int pre = Some n \<longrightarrow>
      decode_ttl (Some (pre @ [c])) = Inr (n * m)"
    by (simp add: decode_ttl_suffixed)
  have b: "(spec = [] \<or> spec_suffix_seconds (last spec) = None) \<and> py_int spec = Some k \<longrightarrow>
      decode_ttl (Some spec) = Inr k"
    using decode_ttl_plain[of spec] by auto
  have c: "spec_suffix_seconds c' \<noteq> None \<and> py_int pre' = None \<longrightarrow>
      decode_ttl (Some (pre' @ [c'])) = Inl (int_literal_error pre')
      \<and> (\<exists>e. AddOp_init d r x (Some (pre' @ [c'])) = Inl e)"
    using decode_ttl_suffixed[of c' _ pre'] AddOp_init_ttl_error[of "Some (pre' @ [c'])"]
    by auto
  have d: "(spec' = [] \<or> spec_suffix_seconds (last spec') = None) \<and> py_int spec' = None \<longrightarrow>
      decode_ttl (Some spec') = Inl (int_literal_error spec')
      \<and> (\<exists>e. AddOp_init d r x (Some spec') = Inl e)"
    using decode_ttl_plain[of spec'] AddOp_init_ttl_error[of "Some spec'"]
    by auto
  have e1: "decode_ttl (Some ''5M'') = Inr 300" by code_simp
  have e2: "decode_ttl (Some ''1H'') = Inr 3600" by code_simp
  have e3: "decode_ttl (Some ''1D'') = Inr 86400" by code_simp
  have e4: "decode_ttl (Some ''1W'') = Inr 604800" by code_simp
  have e5: "decode_ttl (Some ''120'') = Inr 120" by code_simp
  from a b c d e1 e2 e3 e4 e5 show ?thesis by blast
qed

theorem decode_ttl_spec_witness:
  "spec_suffix_seconds (CHR ''h'') = Some 3600 \<and> py_int ''12'' = Some 12
   \<and> decode_ttl (Some ''12h'') = Inr 43200
   \<and> spec_suffix_seconds (last ''90'') = None \<and> py_int ''90'' = Some 90
   \<and> decode_ttl (Some ''90'') = Inr 90
   \<and> spec_suffix_seconds (CHR ''D'') \<noteq> None \<and> py_int ''1.5'' = None
   \<and> decode_ttl (Some ''1.5D'') = Inl (int_literal_error ''1.5'')
   \<and> (\<exists>e. AddOp_init (Some ''example.com'') (Some ''A'') (Some ''1.2.3.4'') (Some ''1.5D'') = Inl e)
   \<and> spec_suffix_seconds (last ''soon'') = None \<and> py_int ''soon'' = None
   \<and> decode_ttl (Some ''soon'') = Inl (int_literal_error ''soon'')
   \<and> (\<exists>e. AddOp_init (Some ''example.com'') (Some ''A'') (Some ''1.2.3.4'') (Some ''soon'') = Inl e)"
proof -
  have h1: "spec_suffix_seconds (CHR ''h'') = Some 3600" by (simp add: spec_suffix_seconds_def)
  have h2: "py_int ''12'' = Some 12" by code_simp
  have h3: "spec_suffix_seconds (last ''90'') = None" by (simp add: spec_suffix_seconds_def)
  have h4: "py_int ''90'' = Some 90" by code_simp
  have h5: "spec_suffix_seconds (CHR ''D'') \<noteq> None" by (simp add: spec_suffix_seconds_def)
  have h6: "py_int ''1.5'' = None" by code_simp
  have h7: "spec_suffix_seconds (last ''soon'') = None" by (simp add: spec_suffix_seconds_def)
  have h8: "py_int ''soon'' = None" by code_simp
  note t = decode_ttl_spec[where c = "CHR ''h''" and m = 3600 and pre = "''12''" and n = 12
      and spec = "''90''" and k = 90 and c' = "CHR ''D''" and pre' = "''1.5''"
      and spec' = "''soon''" and d = "Some ''example.com''" and r = "Some ''A''"
      and x = "Some ''1.2.3.4''"]
  from t h1 h2 h3 h4 h5 h6 h7 h8 show ?thesis by simp
qed

section \<open>Query and WildQuery\<close>

lemma scan_sound:
  "scan keep dname h = Inr rv \<Longrightarrow> (d, r, t, x) \<in> set rv \<Longrightarrow>
     d = dname \<and> keep r x \<and> (r @ [TAB] @ x, t) \<in> set h \<and> TAB \<notin> set r"
proof (induction h arbitrary: rv)
  case Nil
  then show ?case by simp
next
  case (Cons p h)
  obtain entry ttl where p: "p = (entry, ttl)" by (cases p)
  from Cons.prems(1) p obtain r' x' rv' where
    sp: "split_once TAB entry = Some (r', x')" and
    rec: "scan keep dname h = Inr rv'" and
    rv: "rv = (if keep r' x' then (dname, r', ttl, x') # rv' else rv')"
    by (auto split: option.splits sum.splits)
  from sp have e: "entry = r' @ [TAB] @ x'" "TAB \<notin> set r'" using split_once_Some by blast+
  show ?case
  proof (cases "(d, r, t, x) \<in> set rv'")
    case True
    with Cons.IH[OF rec] show ?thesis by auto
  next
    case False
    with Cons.prems(2) rv have "keep r' x'" "(d, r, t, x) = (dname, r', ttl, x')"
      by (auto split: if_splits)
    with e p show ?thesis by auto
  qed
qed

lemma scan_complete:
  "\<forall>(f, v) \<in> set h. TAB \<in> set f \<Longrightarrow>
     \<exists>rv. scan keep dname h = Inr rv \<and>
       (\<forall>r x t. (r @ [TAB] @ x, t) \<in> set h \<and> TAB \<notin> set r \<and> keep r x \<longrightarrow> (dname, r, t, x) \<in> set rv)"
proof (induction h)
  case Nil
  then show ?case by simp
next
  case (Cons p h)
  obtain entry ttl where p: "p = (entry, ttl)" by (cases p)
  from Cons.prems p have "TAB \<in> set entry" by auto
  then obtain r' x' where sp: "split_once TAB entry = Some (r', x')"
    using split_once_None[of TAB entry] by (cases "split_once TAB entry") auto
  from Cons obtain rv' where rec: "scan keep dname h = Inr rv'"
    and all: "\<forall>r x t. (r @ [TAB] @ x, t) \<in> set h \<and> TAB \<notin> set r \<and> keep r x \<longrightarrow> (dname, r, t, x) \<in> set rv'"
    by auto
  let ?rv = "if keep r' x' then (dname, r', ttl, x') # rv' else rv'"
  have res: "scan keep dname (p # h) = Inr ?rv" using p sp rec by simp
  have "\<forall>r x t. (r @ [TAB] @ x, t) \<in> set (p # h) \<and> TAB \<notin> set r \<and> keep r x \<longrightarrow> (dname, r, t, x) \<in> set ?rv"
  proof (intro allI impI)
    fix r x t
    assume a: "(r @ [TAB] @ x, t) \<in> set (p # h) \<and> TAB \<notin> set r \<and> keep r x"
    show "(dname, r, t, x) \<in> set ?rv"
    proof (cases "(r @ [TAB] @ x, t) \<in> set h")
      case True
      with a all show ?thesis by auto
    next
      case False
      with a p have eq: "entry = r @ [TAB] @ x" "ttl = t" by auto
      with a sp have "r' = r" "x' = x" using split_once_join[of TAB r x] by auto
      with a eq show ?thesis by simp
    qed
  qed
  with res show ?case by blast
qed


lemma scan_Inr_wf: "scan keep dn h = Inr rv \<Longrightarrow> \<forall>(f, v) \<in> set h. TAB \<in> set f"
proof (induction h arbitrary: rv)
  case Nil
  then show ?case by simp
next
  case (Cons p h)
  obtain entry ttl where p: "p = (entry, ttl)" by (cases p)
  from Cons.prems p obtain r x rv' where sp: "split_once TAB entry = Some (r, x)"
    and rec: "scan keep dn h = Inr rv'"
    by (auto split: option.splits sum.splits)
  from sp have "TAB \<in> set entry" using split_once_None[of TAB entry] by auto
  with Cons.IH[OF rec] p show ?case by simp
qed

lemma Query_both:
  "truthy (op_record q) = Some r \<Longrightarrow> truthy (op_data q) = Some x \<Longrightarrow>
   Query q dm w s =
     (case hget s (pdns_key_of q dm) (r @ [TAB] @ x) of
        Some ttl \<Rightarrow>
          (case hincrby s (pdns_key_of q dm) QC_FIELD 1 of
             Inl e \<Rightarrow> Inl e
           | Inr (s', n) \<Rightarrow> Inr ([(op_domain q, r, ttl, x)], s'))
      | None \<Rightarrow> if w then WildQuery q (domain_or_self q dm) s else Inr ([], s))"
  by (subst Query.simps) (simp add: Let_def)

lemma Query_scan:
  "truthy (op_record q) = None \<or> truthy (op_data q) = None \<Longrightarrow>
   Query q dm w s =
     (case scan_for q (hgetall s (pdns_key_of q dm)) of
        Inl e \<Rightarrow> Inl e
      | Inr rv \<Rightarrow>
          if rv \<noteq> [] then
            (case hincrby s (pdns_key_of q dm) QC_FIELD 1 of
               Inl e \<Rightarrow> Inl e
             | Inr (s', n) \<Rightarrow> Inr (rv, s'))
          else if w then WildQuery q (domain_or_self q dm) s
          else Inr ([], s))"
  by (subst Query.simps) (auto simp: Let_def scan_for_def split: option.splits)

lemma scan_for_sound:
  "scan_for q h = Inr rv \<Longrightarrow> (d, r, t, x) \<in> set rv \<Longrightarrow>
     d = op_domain q \<and> (r @ [TAB] @ x, t) \<in> set h \<and> TAB \<notin> set r"
  by (auto simp: scan_for_def split: option.splits dest: scan_sound)

lemma scan_for_complete:
  assumes "\<forall>(f, v) \<in> set h. TAB \<in> set f"
  shows "\<exists>rv. scan_for q h = Inr rv \<and>
           (\<forall>r x t. (r @ [TAB] @ x, t) \<in> set h \<and> TAB \<notin> set r \<and> accepts q r x
                \<longrightarrow> (op_domain q, r, t, x) \<in> set rv)"
proof (cases "truthy (op_record q)")
  case (Some rec)
  from scan_complete[OF assms, of "\<lambda>r d. r = rec" "op_domain q"] Some
  show ?thesis by (auto simp: scan_for_def accepts_def)
next
  case None
  show ?thesis
  proof (cases "truthy (op_data q)")
    case (Some dat)
    from scan_complete[OF assms, of "\<lambda>r d. d = dat" "op_domain q"] None Some
    show ?thesis by (auto simp: scan_for_def accepts_def)
  next
    case N2: None
    from scan_complete[OF assms, of "\<lambda>r d. True" "op_domain q"] None N2
    show ?thesis by (auto simp: scan_for_def accepts_def)
  qed
qed

lemma scan_for_Nil: "scan_for q [] = Inr []"
  by (simp add: scan_for_def split: option.splits)


lemma scan_for_Inr_wf: "scan_for q h = Inr rv \<Longrightarrow> \<forall>(f, v) \<in> set h. TAB \<in> set f"
  by (auto simp: scan_for_def split: option.splits dest!: scan_Inr_wf)

lemma Query_plain_effect:
  assumes "Query q dm False s = Inr (rv, s')"
  shows "(rv = [] \<and> s' = s) \<or>
         (rv \<noteq> [] \<and> counted s (pdns_key_of q dm) s' \<and> answers_from q s (pdns_key_of q dm) rv)"
proof (cases "truthy (op_record q) = None \<or> truthy (op_data q) = None")
  case True
  show ?thesis
  proof (cases "scan_for q (hgetall s (pdns_key_of q dm))")
    case (Inl e)
    with assms True show ?thesis by (simp add: Query_scan)
  next
    case (Inr rv0)
    show ?thesis
    proof (cases "rv0 = []")
      case True
      with assms Inr \<open>truthy (op_record q) = None \<or> truthy (op_data q) = None\<close>
      show ?thesis by (simp add: Query_scan)
    next
      case False
      with assms Inr True obtain n where
        h: "hincrby s (pdns_key_of q dm) QC_FIELD 1 = Inr (s', n)" and rv: "rv = rv0"
        by (auto simp: Query_scan split: sum.splits)
      from hincrby_Inr[OF h] have "counted s (pdns_key_of q dm) s'"
        by (auto simp: counted_def)
      moreover have "answers_from q s (pdns_key_of q dm) rv"
        using scan_for_sound[OF Inr] rv by (auto simp: answers_from_def)
      ultimately show ?thesis using False rv by simp
    qed
  qed
next
  case False
  then obtain r x where rx: "truthy (op_record q) = Some r" "truthy (op_data q) = Some x"
    by auto
  show ?thesis
  proof (cases "hget s (pdns_key_of q dm) (r @ [TAB] @ x)")
    case None
    with assms rx show ?thesis by (simp add: Query_both)
  next
    case (Some ttl)
    with assms rx obtain n where
      h: "hincrby s (pdns_key_of q dm) QC_FIELD 1 = Inr (s', n)"
      and rv: "rv = [(op_domain q, r, ttl, x)]"
      by (auto simp: Query_both split: sum.splits)
    from hincrby_Inr[OF h] have "counted s (pdns_key_of q dm) s'"
      by (auto simp: counted_def)
    moreover from Some have "(r @ [TAB] @ x, ttl) \<in> set (hgetall s (pdns_key_of q dm))"
      by (simp add: hget_hgetall map_of_SomeD)
    ultimately show ?thesis using rv by (simp add: answers_from_def)
  qed
qed

lemma WildQuery_unfold:
  "WildQuery q domain s =
     (case wild_key domain of
        None \<Rightarrow> Inr ([], s)
      | Some k \<Rightarrow>
          (case Query q (Some (drop (length REDIS_PREFIX) k)) False s of
             Inl (ValueError m) \<Rightarrow> Inr ([], s)
           | r \<Rightarrow> r))"
  by (subst WildQuery.simps) (simp add: wild_key_def split: option.splits prod.splits)

lemma wild_key_prefix: "wild_key domain = Some k \<Longrightarrow> pdns_key_of q (Some (drop (length REDIS_PREFIX) k)) = k"
  by (auto simp: wild_key_def pdns_key_of_def truthy_def split: option.splits if_splits prod.splits)

lemma WildQuery_effect:
  assumes "WildQuery q domain s = Inr (rv, s')"
  shows "(rv = [] \<and> s' = s) \<or>
         (rv \<noteq> [] \<and> (\<exists>k. wild_key domain = Some k \<and> counted s k s' \<and> answers_from q s k rv))"
proof (cases "wild_key domain")
  case None
  with assms show ?thesis by (simp add: WildQuery_unfold)
next
  case (Some k)
  let ?d = "Some (drop (length REDIS_PREFIX) k)"
  have key: "pdns_key_of q ?d = k" using Some by (rule wild_key_prefix)
  show ?thesis
  proof (cases "Query q ?d False s")
    case (Inl e)
    with assms Some show ?thesis by (cases e) (simp_all add: WildQuery_unfold)
  next
    case (Inr p)
    with assms Some have "Query q ?d False s = Inr (rv, s')" by (simp add: WildQuery_unfold)
    from Query_plain_effect[OF this] key Some show ?thesis by auto
  qed
qed

lemma Query_effect:
  assumes "Query q dm w s = Inr (rv, s')"
  shows "(rv = [] \<and> s' = s) \<or>
         (rv \<noteq> [] \<and>
          (\<exists>k. (k = pdns_key_of q dm \<or> w \<and> wild_key (domain_or_self q dm) = Some k)
               \<and> counted s k s' \<and> answers_from q s k rv))"
proof (cases w)
  case False
  with assms Query_plain_effect[of q dm s rv s'] show ?thesis by auto
next
  case True
  show ?thesis
  proof (cases "Query q dm False s")
    case (Inl e)
    have "Query q dm True s = Inl e"
      using Inl
      by (cases "truthy (op_record q) = None \<or> truthy (op_data q) = None")
         (auto simp: Query_scan Query_both split: sum.splits option.splits if_splits)
    with assms True show ?thesis by simp
  next
    case (Inr p)
    obtain rv0 s0 where p: "p = (rv0, s0)" by (cases p)
    show ?thesis
    proof (cases "rv0 = []")
      case False
      have "Query q dm True s = Inr (rv0, s0)"
        using Inr p False
        by (cases "truthy (op_record q) = None \<or> truthy (op_data q) = None")
           (auto simp: Query_scan Query_both split: sum.splits option.splits if_splits)
      with assms True have "rv = rv0" "s' = s0" by simp_all
      with Query_plain_effect[of q dm s rv0 s0] Inr p False show ?thesis by auto
    next
      case e: True
      have "Query q dm True s = WildQuery q (domain_or_self q dm) s"
        using Inr p e
        by (cases "truthy (op_record q) = None \<or> truthy (op_data q) = None")
           (auto simp: Query_scan Query_both split: sum.splits option.splits if_splits)
      with assms True have "WildQuery q (domain_or_self q dm) s = Inr (rv, s')" by simp
      from WildQuery_effect[OF this] True show ?thesis by auto
    qed
  qed
qed

lemma counted_effect:
  assumes "counted s k s'"
  shows "\<exists>n. counter_of s k = Some n \<and> counter_of s' k = Some (n + 1)
             \<and> (\<forall>k' f. (k', f) \<noteq> (k, QC_FIELD) \<longrightarrow> hget s' k' f = hget s k' f)"
proof -
  from assms obtain n where n: "counter_of s k = Some n"
    and s': "s' = hset s k QC_FIELD (str_int (n + 1))"
    by (auto simp: counted_def)
  have "counter_of s' k = Some (n + 1)" using s' by (simp add: counter_of_hset_QC)
  moreover have "\<forall>k' f. (k', f) \<noteq> (k, QC_FIELD) \<longrightarrow> hget s' k' f = hget s k' f"
    using s' by (auto simp: hget_hset)
  ultimately show ?thesis using n by blast
qed

lemma pdns_key_Some: "k \<noteq> [] \<Longrightarrow> pdns_key_of q (Some k) = REDIS_PREFIX @ k"
  by (simp add: pdns_key_of_def truthy_def)

lemma pdns_key_None: "pdns_key_of q None = REDIS_PREFIX @ op_domain q"
  by (simp add: pdns_key_of_def truthy_def)

lemma domain_or_self_None: "domain_or_self q None = op_domain q"
  by (simp add: domain_or_self_def truthy_def)

lemma Query_hit:
  assumes wf: "\<forall>(f, v) \<in> set (hgetall s (pdns_key_of q dm)). TAB \<in> set f"
    and cnt: "counter_of s (pdns_key_of q dm) \<noteq> None"
    and field: "hget s (pdns_key_of q dm) (r @ [TAB] @ x) = Some ttl"
    and tab: "TAB \<notin> set r"
    and acc: "accepts q r x"
  shows "\<exists>rv s'. Query q dm w s = Inr (rv, s') \<and> (op_domain q, r, ttl, x) \<in> set rv
            \<and> (\<forall>a \<in> set rv. fst a = op_domain q)"
proof -
  let ?key = "pdns_key_of q dm"
  from cnt obtain c where c: "counter_of s ?key = Some c" by auto
  note inc = hincrby_ok[OF c]
  show ?thesis
  proof (cases "truthy (op_record q) = None \<or> truthy (op_data q) = None")
    case False
    then obtain r0 x0 where rx: "truthy (op_record q) = Some r0" "truthy (op_data q) = Some x0"
      by auto
    with acc have "r = r0" "x = x0" by (simp_all add: accepts_def)
    with rx field inc show ?thesis by (simp add: Query_both)
  next
    case True
    from scan_for_complete[OF wf, of q] obtain rv where
      sc: "scan_for q (hgetall s ?key) = Inr rv"
      and all: "\<forall>r x t. (r @ [TAB] @ x, t) \<in> set (hgetall s ?key) \<and> TAB \<notin> set r \<and> accepts q r x
                \<longrightarrow> (op_domain q, r, t, x) \<in> set rv"
      by blast
    from field have "(r @ [TAB] @ x, ttl) \<in> set (hgetall s ?key)"
      by (simp add: hget_hgetall map_of_SomeD)
    with all tab acc have mem: "(op_domain q, r, ttl, x) \<in> set rv" by blast
    then have ne: "rv \<noteq> []" by auto
    have lab: "\<forall>a \<in> set rv. fst a = op_domain q"
      using scan_for_sound[OF sc] by auto
    from True sc ne inc have "Query q dm w s = Inr (rv, hset s ?key QC_FIELD (str_int (c + 1)))"
      by (simp add: Query_scan)
    with mem lab show ?thesis by blast
  qed
qed

lemma Query_miss:
  assumes "hgetall s (pdns_key_of q dm) = []"
  shows "Query q dm w s = (if w then WildQuery q (domain_or_self q dm) s else Inr ([], s))"
proof (cases "truthy (op_record q) = None \<or> truthy (op_data q) = None")
  case True
  with assms show ?thesis by (simp add: Query_scan scan_for_Nil)
next
  case False
  then obtain r0 x0 where rx: "truthy (op_record q) = Some r0" "truthy (op_data q) = Some x0"
    by auto
  have "hget s (pdns_key_of q dm) (r0 @ [TAB] @ x0) = None"
    using assms by (simp add: hget_hgetall)
  with rx show ?thesis by (simp add: Query_both)
qed

lemma wild_key_plain:
  "CHR ''.'' \<notin> set sub \<Longrightarrow> sub \<noteq> ''*'' \<Longrightarrow>
     wild_key (sub @ ''.'' @ rest) = Some (REDIS_PREFIX @ ''*.'' @ rest)"
  using split_once_join[of "CHR ''.''" sub rest] by (simp add: wild_key_def)

lemma wild_key_star:
  "CHR ''.'' \<notin> set sub \<Longrightarrow>
     wild_key (''*.'' @ sub @ ''.'' @ rest) = Some (REDIS_PREFIX @ ''*.'' @ rest)"
  using split_once_join[of "CHR ''.''" sub rest] split_once_join[of "CHR ''.''" "''*''" "sub @ ''.'' @ rest"]
  by (simp add: wild_key_def)

lemma wild_key_none:
  "CHR ''.'' \<notin> set d \<Longrightarrow> wild_key d = None \<and> wild_key (''*.'' @ d) = None"
  using split_once_None[of "CHR ''.''" d] split_once_join[of "CHR ''.''" "''*''" d]
  by (simp add: wild_key_def)

lemma WildQuery_Inr:
  assumes "wild_key d = Some (REDIS_PREFIX @ k)" and "Query q (Some k) False s = Inr p"
  shows "WildQuery q d s = Inr p"
  using assms by (simp add: WildQuery_unfold)




lemma Query_True_unfold:
  "Query q dm True s =
     (case Query q dm False s of
        Inr ([], s') \<Rightarrow> WildQuery q (domain_or_self q dm) s
      | r \<Rightarrow> r)"
proof (cases "truthy (op_record q) = None \<or> truthy (op_data q) = None")
  case True
  then show ?thesis
    by (auto simp: Query_scan split: sum.splits list.splits prod.splits)
next
  case False
  then obtain r x where "truthy (op_record q) = Some r" "truthy (op_data q) = Some x" by auto
  then show ?thesis
    by (auto simp: Query_both split: option.splits sum.splits list.splits prod.splits)
qed

lemma Query_unsplittable:
  assumes "wild_key (domain_or_self q dm) = None"
  shows "Query q dm True s = Query q dm False s"
proof (cases "Query q dm False s")
  case (Inl e)
  then show ?thesis by (simp add: Query_True_unfold)
next
  case (Inr p)
  obtain rv s' where p: "p = (rv, s')" by (cases p)
  show ?thesis
  proof (cases "rv = []")
    case False
    with Inr p show ?thesis by (simp add: Query_True_unfold split: list.splits)
  next
    case True
    with Query_plain_effect[of q dm s rv s'] Inr p have "s' = s" by simp
    with True Inr p assms show ?thesis by (simp add: Query_True_unfold WildQuery_unfold)
  qed
qed

lemma wildcard_hit:
  assumes dm: "op_domain q = sub @ ''.'' @ rest"
    and sub: "CHR ''.'' \<notin> set sub" "sub \<noteq> ''*''"
    and none: "hgetall s (REDIS_PREFIX @ op_domain q) = []"
    and field: "hget s (REDIS_PREFIX @ ''*.'' @ rest) (r @ [TAB] @ x) = Some ttl"
    and tab: "TAB \<notin> set r"
    and acc: "accepts q r x"
    and wf: "fields_ok (hgetall s (REDIS_PREFIX @ ''*.'' @ rest))"
    and cnt: "counter_of s (REDIS_PREFIX @ ''*.'' @ rest) \<noteq> None"
  shows "\<exists>rv s'. Query q None True s = Inr (rv, s') \<and> (op_domain q, r, ttl, x) \<in> set rv
              \<and> (\<forall>a \<in> set rv. fst a = op_domain q)"
proof -
  let ?k = "''*.'' @ rest"
  have key: "pdns_key_of q (Some ?k) = REDIS_PREFIX @ ?k" by (simp add: pdns_key_Some)
  from Query_hit[of s q "Some ?k" r x ttl False] wf[unfolded fields_ok_def] cnt field tab acc key
  obtain rv s' where
    hit: "Query q (Some ?k) False s = Inr (rv, s')" and mem: "(op_domain q, r, ttl, x) \<in> set rv"
    and lab: "\<forall>a \<in> set rv. fst a = op_domain q"
    by auto
  have wk: "wild_key (op_domain q) = Some (REDIS_PREFIX @ ?k)"
    using dm sub wild_key_plain[of sub rest] by simp
  have "WildQuery q (op_domain q) s = Inr (rv, s')"
    using wk hit by (rule WildQuery_Inr)
  moreover have "Query q None True s = WildQuery q (op_domain q) s"
    using none Query_miss[of s q None True] by (simp add: pdns_key_None domain_or_self_None)
  ultimately have "Query q None True s = Inr (rv, s')" by simp
  with mem lab show ?thesis by blast
qed

lemma wildcard_unsplittable:
  assumes "CHR ''.'' \<notin> set d" and "op_domain q = d \<or> op_domain q = ''*.'' @ d"
  shows "Query q None True s = Query q None False s"
proof -
  from assms wild_key_none[of d] have "wild_key (domain_or_self q None) = None"
    by (auto simp: domain_or_self_None)
  then show ?thesis by (rule Query_unsplittable)
qed

lemma QueryOp_init_domain: "QueryOp_init (Some d) r x = Inr q \<Longrightarrow> op_domain q = lower d"
  by (auto simp: QueryOp_init_def truthy_def split: option.splits if_splits)

section \<open>Add, then query\<close>

lemma AddOp_init_Inr:
  assumes "AddOp_init domain rec dat ttlSpec = Inr a"
  shows "\<exists>q r x n. QueryOp_init domain rec dat = Inr q \<and> op_record q = Some r
           \<and> r \<in> set VALID_RECORDS \<and> op_data q = Some x \<and> x \<noteq> []
           \<and> decode_ttl ttlSpec = Inr n
           \<and> a = \<lparr> op_domain = op_domain q, op_record = Some r, op_data = Some x,
                   op_ttl = str_int n \<rparr>"
  using assms
  by (auto simp: AddOp_init_def truthy_def split: sum.splits if_splits option.splits)

lemma valid_record_nonempty: "r \<in> set VALID_RECORDS \<Longrightarrow> r \<noteq> []"
  by (auto simp: VALID_RECORDS_def)

text \<open>
  C1. When the constructor of AddOp accepts (domain, type, data, ttl), running it on a
  store whose query counter for that domain, if present, holds an integer, and then
  querying the same domain with the same type and data, gives exactly one answer; its
  TTL is \<open>str\<close> of the seconds that the TTL specification decodes to, and \<open>int\<close>
  reads those seconds back from it. This holds with wildcards on or off.
\<close>

theorem add_then_query:
  assumes "AddOp_init domain rec dat ttlSpec = Inr a"
    and "counter_of s (REDIS_PREFIX @ op_domain a) \<noteq> None"
  shows "\<exists>msg s1 q n r x s2.
           AddOp_Run a s = Inr (msg, s1)
           \<and> QueryOp_init domain rec dat = Inr q
           \<and> decode_ttl ttlSpec = Inr n
           \<and> op_record q = Some r \<and> op_data q = Some x
           \<and> Query q None w s1 = Inr ([(op_domain q, r, str_int n, x)], s2)
           \<and> py_int (str_int n) = Some n"
proof -
  from AddOp_init_Inr[OF assms(1)] obtain q r x n where
    q: "QueryOp_init domain rec dat = Inr q" and r: "op_record q = Some r"
    and rv: "r \<in> set VALID_RECORDS" and x: "op_data q = Some x" and xn: "x \<noteq> []"
    and n: "decode_ttl ttlSpec = Inr n"
    and a: "a = \<lparr> op_domain = op_domain q, op_record = Some r, op_data = Some x,
                   op_ttl = str_int n \<rparr>"
    by blast
  let ?key = "REDIS_PREFIX @ op_domain q"
  let ?f = "r @ [TAB] @ x"
  let ?s1 = "hset s ?key ?f (str_int n)"
  have run: "AddOp_Run a s = Inr (''Added '' @ r @ '' record to '' @ op_domain q @ ''.'', ?s1)"
    using a by (simp add: AddOp_Run_def)
  have tr: "truthy (op_record q) = Some r" using r valid_record_nonempty[OF rv]
    by (simp add: truthy_def)
  have tx: "truthy (op_data q) = Some x" using x xn by (simp add: truthy_def)
  have key: "pdns_key_of q None = ?key" by (simp add: pdns_key_of_def truthy_def)
  have hit: "hget ?s1 ?key ?f = Some (str_int n)" by (simp add: hget_hset)
  from assms(2) a obtain c0 where c0: "counter_of s ?key = Some c0" by auto
  have "\<exists>c. counter_of ?s1 ?key = Some c"
    using c0 by (simp add: counter_of_hset py_int_str_int)
  then obtain c where c: "counter_of ?s1 ?key = Some c" by blast
  have "Query q None w ?s1 =
          Inr ([(op_domain q, r, str_int n, x)], hset ?s1 ?key QC_FIELD (str_int (c + 1)))"
    using tr tx hit hincrby_ok[OF c] by (simp add: Query_both key)
  with run q n r x show ?thesis by (simp add: py_int_str_int)
qed

theorem add_then_query_witness:
  "\<exists>a. AddOp_init (Some ''Example.COM'') (Some ''a'') (Some ''1.2.3.4'') (Some ''5m'') = Inr a
       \<and> counter_of [] (REDIS_PREFIX @ op_domain a) \<noteq> None
       \<and> (\<exists>msg s1 q s2.
             AddOp_Run a [] = Inr (msg, s1)
             \<and> QueryOp_init (Some ''Example.COM'') (Some ''a'') (Some ''1.2.3.4'') = Inr q
             \<and> decode_ttl (Some ''5m'') = Inr 300
             \<and> Query q None False s1 = Inr ([(''example.com'', ''A'', ''300'', ''1.2.3.4'')], s2))"
proof -
  let ?a = "\<lparr> op_domain = ''example.com'', op_record = Some ''A'', op_data = Some ''1.2.3.4'',
               op_ttl = ''300'' \<rparr>"
  have h1: "AddOp_init (Some ''Example.COM'') (Some ''a'') (Some ''1.2.3.4'') (Some ''5m'') = Inr ?a"
    by code_simp
  have h2: "counter_of [] (REDIS_PREFIX @ op_domain ?a) \<noteq> None"
    by (simp add: counter_of_def hget_def)
  have d: "decode_ttl (Some ''5m'') = Inr 300" by code_simp
  have s: "str_int 300 = ''300''" by code_simp
  have l: "lower ''Example.COM'' = ''example.com''" by code_simp
  have q: "QueryOp_init (Some ''Example.COM'') (Some ''a'') (Some ''1.2.3.4'')
             = Inr \<lparr> op_domain = ''example.com'', op_record = Some ''A'', op_data = Some ''1.2.3.4'' \<rparr>"
    by code_simp
  from add_then_query[OF h1 h2, of False] h1 h2 d s q show ?thesis
    by auto
qed

section \<open>Wildcard fallback\<close>

text \<open>
  C3. Let the domain of the query be \<open>sub.rest\<close> with \<open>sub\<close> a single label other
  than \<open>*\<close>, let the store hold no field under the domain and a well-formed hash under
  \<open>*.rest\<close> with a field (r, x) that the filters of the query accept. Then the query
  with wildcards on returns that entry, and every answer it returns carries the domain
  of the query, which is the requested name in lower case. Apart from that, and on every
  store: the wildcard fallback of a domain without a dot, with or without a leading
  \<open>*.\<close>, returns the empty list and leaves the store alone; a query for such a domain
  gives with wildcards on what it gives with wildcards off, which is the empty list when
  the store holds no field under the domain.
\<close>

theorem wildcard_fallback:
  "(op_domain q = sub @ ''.'' @ rest \<and> CHR ''.'' \<notin> set sub \<and> sub \<noteq> ''*''
      \<and> hgetall s (REDIS_PREFIX @ op_domain q) = []
      \<and> hget s (REDIS_PREFIX @ ''*.'' @ rest) (r @ [TAB] @ x) = Some ttl
      \<and> TAB \<notin> set r \<and> accepts q r x
      \<and> fields_ok (hgetall s (REDIS_PREFIX @ ''*.'' @ rest))
      \<and> counter_of s (REDIS_PREFIX @ ''*.'' @ rest) \<noteq> None
    \<longrightarrow> (\<exists>rv s'. Query q None True s = Inr (rv, s') \<and> (op_domain q, r, ttl, x) \<in> set rv
              \<and> (\<forall>a \<in> set rv. fst a = op_domain q)))
   \<and> (QueryOp_init (Some d0) r0 x0 = Inr q0 \<longrightarrow> op_domain q0 = lower d0)
   \<and> (CHR ''.'' \<notin> set d1 \<longrightarrow>
         WildQuery q1 d1 s1 = Inr ([], s1) \<and> WildQuery q1 (''*.'' @ d1) s1 = Inr ([], s1))
   \<and> (CHR ''.'' \<notin> set d2 \<and> (op_domain q2 = d2 \<or> op_domain q2 = ''*.'' @ d2) \<longrightarrow>
         Query q2 None True s2 = Query q2 None False s2)
   \<and> (CHR ''.'' \<notin> set d2 \<and> (op_domain q2 = d2 \<or> op_domain q2 = ''*.'' @ d2)
         \<and> hgetall s2 (REDIS_PREFIX @ op_domain q2) = [] \<longrightarrow>
         Query q2 None True s2 = Inr ([], s2))"
proof -
  have a: "op_domain q = sub @ ''.'' @ rest \<and> CHR ''.'' \<notin> set sub \<and> sub \<noteq> ''*''
      \<and> hgetall s (REDIS_PREFIX @ op_domain q) = []
      \<and> hget s (REDIS_PREFIX @ ''*.'' @ rest) (r @ [TAB] @ x) = Some ttl
      \<and> TAB \<notin> set r \<and> accepts q r x
      \<and> fields_ok (hgetall s (REDIS_PREFIX @ ''*.'' @ rest))
      \<and> counter_of s (REDIS_PREFIX @ ''*.'' @ rest) \<noteq> None
    \<longrightarrow> (\<exists>rv s'. Query q None True s = Inr (rv, s') \<and> (op_domain q, r, ttl, x) \<in> set rv
              \<and> (\<forall>a \<in> set rv. fst a = op_domain q))"
    using wildcard_hit[of q sub rest s r x ttl] by blast
  have b: "QueryOp_init (Some d0) r0 x0 = Inr q0 \<longrightarrow> op_domain q0 = lower d0"
    using QueryOp_init_domain by blast
  have c: "CHR ''.'' \<notin> set d1 \<longrightarrow>
         WildQuery q1 d1 s1 = Inr ([], s1) \<and> WildQuery q1 (''*.'' @ d1) s1 = Inr ([], s1)"
    using wild_key_none[of d1] by (simp add: WildQuery_unfold)
  have d: "CHR ''.'' \<notin> set d2 \<and> (op_domain q2 = d2 \<or> op_domain q2 = ''*.'' @ d2) \<longrightarrow>
         Query q2 None True s2 = Query q2 None False s2"
    using wildcard_unsplittable[of d2 q2 s2] by blast
  have e: "CHR ''.'' \<notin> set d2 \<and> (op_domain q2 = d2 \<or> op_domain q2 = ''*.'' @ d2)
         \<and> hgetall s2 (REDIS_PREFIX @ op_domain q2) = [] \<longrightarrow>
         Query q2 None True s2 = Inr ([], s2)"
  proof (intro impI, elim conjE)
    assume h: "CHR ''.'' \<notin> set d2" "op_domain q2 = d2 \<or> op_domain q2 = ''*.'' @ d2"
      and n: "hgetall s2 (REDIS_PREFIX @ op_domain q2) = []"
    from n have "Query q2 None False s2 = Inr ([], s2)"
      using Query_miss[of s2 q2 None False] by (simp add: pdns_key_None)
    with wildcard_unsplittable[OF h, of s2] show "Query q2 None True s2 = Inr ([], s2)" by simp
  qed
  from a b c d e show ?thesis by blast
qed

theorem wildcard_fallback_witness:
  "op_domain (q_of ''foo.bar.com'' None) = ''foo'' @ ''.'' @ ''bar.com''
   \<and> CHR ''.'' \<notin> set ''foo'' \<and> ''foo'' \<noteq> ''*''
   \<and> hgetall ex_store (REDIS_PREFIX @ op_domain (q_of ''foo.bar.com'' None)) = []
   \<and> hget ex_store (REDIS_PREFIX @ ''*.'' @ ''bar.com'') (''A'' @ [TAB] @ ''9.9.9.9'') = Some ''120''
   \<and> TAB \<notin> set ''A''
   \<and> accepts (q_of ''foo.bar.com'' None) ''A'' ''9.9.9.9''
   \<and> fields_ok (hgetall ex_store (REDIS_PREFIX @ ''*.'' @ ''bar.com''))
   \<and> counter_of ex_store (REDIS_PREFIX @ ''*.'' @ ''bar.com'') \<noteq> None
   \<and> (\<exists>rv s'. Query (q_of ''foo.bar.com'' None) None True ex_store = Inr (rv, s')
          \<and> (''foo.bar.com'', ''A'', ''120'', ''9.9.9.9'') \<in> set rv)
   \<and> QueryOp_init (Some ''Foo.Bar.com'') None None = Inr (q_of ''foo.bar.com'' None)
   \<and> op_domain (q_of ''foo.bar.com'' None) = lower ''Foo.Bar.com''
   \<and> CHR ''.'' \<notin> set ''com''
   \<and> WildQuery (q_of ''foo.bar.com'' None) ''com'' ex_store = Inr ([], ex_store)
   \<and> WildQuery (q_of ''foo.bar.com'' None) ''*.com'' ex_store = Inr ([], ex_store)
   \<and> CHR ''.'' \<notin> set ''localhost''
   \<and> op_domain (q_of ''localhost'' None) = ''localhost''
   \<and> hgetall [] (REDIS_PREFIX @ op_domain (q_of ''localhost'' None)) = []
   \<and> Query (q_of ''localhost'' None) None True [] = Query (q_of ''localhost'' None) None False []
   \<and> Query (q_of ''localhost'' None) None True [] = Inr ([], [])"
proof -
  let ?q = "q_of ''foo.bar.com'' None"
  let ?l = "q_of ''localhost'' None"
  have h1: "op_domain ?q = ''foo'' @ ''.'' @ ''bar.com''" by (simp add: q_of_def)
  have h2: "CHR ''.'' \<notin> set ''foo''" by simp
  have h3: "''foo'' \<noteq> ''*''" by simp
  have h4: "hgetall ex_store (REDIS_PREFIX @ op_domain ?q) = []" by code_simp
  have h5: "hget ex_store (REDIS_PREFIX @ ''*.'' @ ''bar.com'') (''A'' @ [TAB] @ ''9.9.9.9'') = Some ''120''"
    by code_simp
  have h6: "TAB \<notin> set ''A''" by (simp add: TAB_def)
  have h7: "accepts ?q ''A'' ''9.9.9.9''" by (simp add: accepts_def q_of_def truthy_def)
  have h8: "fields_ok (hgetall ex_store (REDIS_PREFIX @ ''*.'' @ ''bar.com''))"
    by code_simp
  have h9: "counter_of ex_store (REDIS_PREFIX @ ''*.'' @ ''bar.com'') \<noteq> None" by code_simp
  have i: "QueryOp_init (Some ''Foo.Bar.com'') None None = Inr ?q" by code_simp
  have d: "CHR ''.'' \<notin> set ''com''" by simp
  have l1: "CHR ''.'' \<notin> set ''localhost''" by simp
  have l2: "op_domain ?l = ''localhost''" by (simp add: q_of_def)
  have l3: "hgetall [] (REDIS_PREFIX @ op_domain ?l) = []" by (simp add: hgetall_def)
  note t = wildcard_fallback[where q = ?q and sub = "''foo''" and rest = "''bar.com''"
      and s = ex_store and r = "''A''" and x = "''9.9.9.9''" and ttl = "''120''"
      and ?d0.0 = "''Foo.Bar.com''" and ?r0.0 = None and ?x0.0 = None and ?q0.0 = ?q
      and ?d1.0 = "''com''" and ?q1.0 = ?q and ?s1.0 = ex_store
      and ?d2.0 = "''localhost''" and ?q2.0 = ?l and ?s2.0 = "[]"]
  from t h1 h2 h3 h4 h5 h6 h7 h8 h9
  have a: "\<exists>rv s'. Query ?q None True ex_store = Inr (rv, s')
          \<and> (''foo.bar.com'', ''A'', ''120'', ''9.9.9.9'') \<in> set rv"
    by (auto simp: q_of_def)
  from t i have b: "op_domain ?q = lower ''Foo.Bar.com''" by blast
  from t d have c: "WildQuery ?q ''com'' ex_store = Inr ([], ex_store)"
    "WildQuery ?q ''*.com'' ex_store = Inr ([], ex_store)" by simp_all
  from t l1 l2 have e: "Query ?l None True [] = Query ?l None False []" by blast
  from t l1 l2 l3 have f: "Query ?l None True [] = Inr ([], [])" by blast
  from h1 h2 h3 h4 h5 h6 h7 h8 h9 a i b d c l1 l2 l3 e f show ?thesis by blast
qed

text \<open>
  C9, as amended. Let the domain of the query be \<open>sub.rest\<close> with \<open>sub\<close> a single
  label other than \<open>*\<close>. When the store holds no field at all, the counter field
  included, under the key of the domain and under the key of \<open>*.rest\<close>, the query with
  wildcards on returns the empty list and leaves the store alone, whatever the store holds
  under wildcards further up; and so it does whenever the query with wildcards off finds
  nothing under either of the two keys.
\<close>

theorem wildcard_single_level:
  assumes dm: "op_domain q = sub @ ''.'' @ rest"
    and sub: "CHR ''.'' \<notin> set sub" "sub \<noteq> ''*''"
  shows "(hgetall s (REDIS_PREFIX @ op_domain q) = []
            \<and> hgetall s (REDIS_PREFIX @ ''*.'' @ rest) = []
          \<longrightarrow> Query q None True s = Inr ([], s))
         \<and> (Query q None False s = Inr ([], s)
            \<and> Query q (Some (''*.'' @ rest)) False s = Inr ([], s)
          \<longrightarrow> Query q None True s = Inr ([], s))"
proof -
  let ?k = "''*.'' @ rest"
  have key: "pdns_key_of q (Some ?k) = REDIS_PREFIX @ ?k" by (simp add: pdns_key_Some)
  have wk: "wild_key (op_domain q) = Some (REDIS_PREFIX @ ?k)"
    using dm sub wild_key_plain[of sub rest] by simp
  have two: "Query q None False s = Inr ([], s) \<and> Query q (Some ?k) False s = Inr ([], s)
          \<longrightarrow> Query q None True s = Inr ([], s)"
  proof (intro impI, elim conjE)
    assume own: "Query q None False s = Inr ([], s)"
      and par: "Query q (Some ?k) False s = Inr ([], s)"
    from wk par have "WildQuery q (op_domain q) s = Inr ([], s)" by (rule WildQuery_Inr)
    with own show "Query q None True s = Inr ([], s)"
      by (simp add: Query_True_unfold domain_or_self_None)
  qed
  have "hgetall s (REDIS_PREFIX @ op_domain q) = [] \<and> hgetall s (REDIS_PREFIX @ ?k) = []
          \<longrightarrow> Query q None True s = Inr ([], s)"
  proof (intro impI, elim conjE)
    assume none: "hgetall s (REDIS_PREFIX @ op_domain q) = []"
      and parent: "hgetall s (REDIS_PREFIX @ ?k) = []"
    have "Query q None False s = Inr ([], s)"
      using none Query_miss[of s q None False] by (simp add: pdns_key_None)
    moreover have "Query q (Some ?k) False s = Inr ([], s)"
      using parent Query_miss[of s q "Some ?k" False] key by simp
    ultimately show "Query q None True s = Inr ([], s)" using two by blast
  qed
  with two show ?thesis by blast
qed

theorem wildcard_single_level_witness:
  "op_domain (q_of ''a.b.c.d'' None) = ''a'' @ ''.'' @ ''b.c.d''
   \<and> CHR ''.'' \<notin> set ''a'' \<and> ''a'' \<noteq> ''*''
   \<and> hgetall ex_store2 (REDIS_PREFIX @ op_domain (q_of ''a.b.c.d'' None)) = []
   \<and> hgetall ex_store2 (REDIS_PREFIX @ ''*.'' @ ''b.c.d'') = []
   \<and> hgetall ex_store2 ''pdns.*.c.d'' \<noteq> []
   \<and> Query (q_of ''a.b.c.d'' None) None True ex_store2 = Inr ([], ex_store2)
   \<and> op_domain (q_of ''a.b.c.d'' (Some ''A'')) = ''a'' @ ''.'' @ ''b.c.d''
   \<and> Query (q_of ''a.b.c.d'' (Some ''A'')) None False ex_store5 = Inr ([], ex_store5)
   \<and> Query (q_of ''a.b.c.d'' (Some ''A'')) (Some (''*.'' @ ''b.c.d'')) False ex_store5
        = Inr ([], ex_store5)
   \<and> Query (q_of ''a.b.c.d'' (Some ''A'')) None True ex_store5 = Inr ([], ex_store5)"
proof -
  let ?q = "q_of ''a.b.c.d'' None"
  let ?qa = "q_of ''a.b.c.d'' (Some ''A'')"
  have h1: "op_domain ?q = ''a'' @ ''.'' @ ''b.c.d''" by (simp add: q_of_def)
  have h2: "CHR ''.'' \<notin> set ''a''" by simp
  have h3: "''a'' \<noteq> ''*''" by simp
  have h4: "hgetall ex_store2 (REDIS_PREFIX @ op_domain ?q) = []" by code_simp
  have h5: "hgetall ex_store2 (REDIS_PREFIX @ ''*.'' @ ''b.c.d'') = []" by code_simp
  have h6: "hgetall ex_store2 ''pdns.*.c.d'' \<noteq> []" by code_simp
  have g1: "op_domain ?qa = ''a'' @ ''.'' @ ''b.c.d''" by (simp add: q_of_def)
  have g2: "Query ?qa None False ex_store5 = Inr ([], ex_store5)" by code_simp
  have g3: "Query ?qa (Some (''*.'' @ ''b.c.d'')) False ex_store5 = Inr ([], ex_store5)"
    by code_simp
  from wildcard_single_level[OF h1 h2 h3, of ex_store2] h4 h5
  have a: "Query ?q None True ex_store2 = Inr ([], ex_store2)" by blast
  from wildcard_single_level[OF g1 h2 h3, of ex_store5] g2 g3
  have b: "Query ?qa None True ex_store5 = Inr ([], ex_store5)" by blast
  from h1 h2 h3 h4 h5 h6 a g1 g2 g3 b show ?thesis by blast
qed

theorem wildcard_single_level_counterexample:
  "hgetall ex_store2 (REDIS_PREFIX @ ''*.b.c.d'') = []
   \<and> Query (q_of ''*.b.c.d'' None) None True ex_store2
       = Inr ([(''*.b.c.d'', ''A'', ''300'', ''1.2.3.4'')],
              [(''pdns.*.c.d'',
                [(''A'' @ [TAB] @ ''1.2.3.4'', ''300''), (''TXT'' @ [TAB] @ ''QC'', ''1'')])])
   \<and> hgetall ex_store5 (REDIS_PREFIX @ ''a.b.c.d'') = []
   \<and> Query (q_of ''a.b.c.d'' None) None True ex_store5
       = Inr ([(''a.b.c.d'', ''TXT'', ''1'', ''QC'')],
              [(''pdns.*.b.c.d'', [(''TXT'' @ [TAB] @ ''QC'', ''2'')]),
               (''pdns.*.c.d'', [(''A'' @ [TAB] @ ''1.2.3.4'', ''300'')])])"
  by code_simp

section \<open>The query counter\<close>

text \<open>
  C4. A query that returns no answer leaves the store as it was. A query that returns
  answers, however many, has found them under one key (the key of the domain, or the
  wildcard key when the fallback ran), has raised the counter field TXT/QC of that key
  by exactly 1 (from 0 when the field was missing), and has changed no other field of
  any key.
\<close>

theorem query_counter_increment:
  assumes "Query q dm w s = Inr (rv, s')"
  shows "(rv = [] \<longrightarrow> s' = s) \<and>
         (rv \<noteq> [] \<longrightarrow>
            (\<exists>k n. (k = pdns_key_of q dm \<or> w \<and> wild_key (domain_or_self q dm) = Some k)
                 \<and> answers_from q s k rv
                 \<and> counter_of s k = Some n \<and> counter_of s' k = Some (n + 1)
                 \<and> (\<forall>k' f. (k', f) \<noteq> (k, QC_FIELD) \<longrightarrow> hget s' k' f = hget s k' f)))"
proof -
  from Query_effect[OF assms] show ?thesis
  proof
    assume "rv = [] \<and> s' = s"
    then show ?thesis by simp
  next
    assume a: "rv \<noteq> [] \<and>
      (\<exists>k. (k = pdns_key_of q dm \<or> w \<and> wild_key (domain_or_self q dm) = Some k)
           \<and> counted s k s' \<and> answers_from q s k rv)"
    then obtain k where k: "k = pdns_key_of q dm \<or> w \<and> wild_key (domain_or_self q dm) = Some k"
      and c: "counted s k s'" and af: "answers_from q s k rv" by blast
    from counted_effect[OF c] obtain n where
      "counter_of s k = Some n" "counter_of s' k = Some (n + 1)"
      "\<forall>k' f. (k', f) \<noteq> (k, QC_FIELD) \<longrightarrow> hget s' k' f = hget s k' f" by blast
    with k af a show ?thesis by blast
  qed
qed

theorem query_counter_increment_witness:
  "\<exists>rv s'. Query (q_of ''example.com'' (Some ''A'')) None False ex_store = Inr (rv, s')
      \<and> length rv = 2
      \<and> (\<exists>k n. k = pdns_key_of (q_of ''example.com'' (Some ''A'')) None
             \<and> answers_from (q_of ''example.com'' (Some ''A'')) ex_store k rv
             \<and> counter_of ex_store k = Some n \<and> counter_of s' k = Some (n + 1)
             \<and> (\<forall>k' f. (k', f) \<noteq> (k, QC_FIELD) \<longrightarrow> hget s' k' f = hget ex_store k' f))"
proof -
  have h: "Query (q_of ''example.com'' (Some ''A'')) None False ex_store
      = Inr ([(''example.com'', ''A'', ''300'', ''1.2.3.4''), (''example.com'', ''A'', ''60'', ''5.6.7.8'')],
         [(''pdns.example.com'',
           [(''A'' @ [TAB] @ ''1.2.3.4'', ''300''), (''A'' @ [TAB] @ ''5.6.7.8'', ''60''),
            (''TXT'' @ [TAB] @ ''QC'', ''42'')]),
          (''pdns.*.bar.com'', [(''A'' @ [TAB] @ ''9.9.9.9'', ''120'')])])"
    by code_simp
  from query_counter_increment[OF h] h show ?thesis by auto
qed

section \<open>Delete\<close>

text \<open>
  C6, as amended. A delete with neither filter removes the key of the domain, and the
  counter field with it, and leaves the other keys alone. Its report is the same text
  whether or not the key was there; it is \<open>MockRedis.delete\<close> that returns whether the
  key existed, and \<open>DeleteOp.Run\<close> drops that value.
\<close>

theorem delete_whole_domain:
  assumes "truthy (op_record q) = None" and "truthy (op_data q) = None"
  shows "\<exists>s'. DeleteOp_Run q s = Inr (''Deleted all records for '' @ op_domain q @ ''.'', s')
           \<and> s' = fst (delete s (REDIS_PREFIX @ op_domain q))
           \<and> map_of s' (REDIS_PREFIX @ op_domain q) = None
           \<and> hgetall s' (REDIS_PREFIX @ op_domain q) = []
           \<and> hget s' (REDIS_PREFIX @ op_domain q) QC_FIELD = None
           \<and> (\<forall>k. k \<noteq> REDIS_PREFIX @ op_domain q \<longrightarrow> map_of s' k = map_of s k)
           \<and> snd (delete s (REDIS_PREFIX @ op_domain q)) = (map_of s (REDIS_PREFIX @ op_domain q) \<noteq> None)"
proof -
  let ?key = "REDIS_PREFIX @ op_domain q"
  let ?s' = "fst (delete s ?key)"
  have run: "DeleteOp_Run q s = Inr (''Deleted all records for '' @ op_domain q @ ''.'', ?s')"
    using assms by (simp add: DeleteOp_Run_def)
  have gone: "map_of ?s' ?key = None" by (simp add: map_of_delete_store)
  then have "hgetall ?s' ?key = []" "hget ?s' ?key QC_FIELD = None"
    by (simp_all add: hgetall_def hget_def)
  moreover have "\<forall>k. k \<noteq> ?key \<longrightarrow> map_of ?s' k = map_of s k"
    by (simp add: map_of_delete_store)
  moreover have "snd (delete s ?key) = (map_of s ?key \<noteq> None)"
    by (simp add: delete_def)
  ultimately show ?thesis using run gone by blast
qed

theorem delete_whole_domain_witness:
  "truthy (op_record (q_of ''example.com'' None)) = None
   \<and> truthy (op_data (q_of ''example.com'' None)) = None
   \<and> hget ex_store3 ''pdns.example.com'' QC_FIELD = Some ''5''
   \<and> (\<exists>s'. DeleteOp_Run (q_of ''example.com'' None) ex_store3
              = Inr (''Deleted all records for example.com.'', s')
          \<and> map_of s' ''pdns.example.com'' = None
          \<and> hget s' ''pdns.example.com'' QC_FIELD = None)
   \<and> snd (delete ex_store3 ''pdns.example.com'') = True
   \<and> snd (delete [] ''pdns.example.com'') = False"
proof -
  let ?q = "q_of ''example.com'' None"
  have h1: "truthy (op_record ?q) = None" by (simp add: q_of_def truthy_def)
  have h2: "truthy (op_data ?q) = None" by (simp add: q_of_def truthy_def)
  have c: "hget ex_store3 ''pdns.example.com'' QC_FIELD = Some ''5''" by code_simp
  have k: "REDIS_PREFIX @ op_domain ?q = ''pdns.example.com''" by (simp add: REDIS_PREFIX_def q_of_def)
  have d1: "snd (delete ex_store3 ''pdns.example.com'') = True" by code_simp
  have d2: "snd (delete [] ''pdns.example.com'') = False" by code_simp
  from delete_whole_domain[OF h1 h2, of ex_store3] obtain s' where
    run: "DeleteOp_Run ?q ex_store3 = Inr (''Deleted all records for '' @ op_domain ?q @ ''.'', s')"
    and gone: "map_of s' (REDIS_PREFIX @ op_domain ?q) = None"
    and qc: "hget s' (REDIS_PREFIX @ op_domain ?q) QC_FIELD = None"
    by blast
  have "op_domain ?q = ''example.com''" by (simp add: q_of_def)
  with run have run': "DeleteOp_Run ?q ex_store3 = Inr (''Deleted all records for example.com.'', s')"
    by simp
  from gone qc have "map_of s' ''pdns.example.com'' = None" "hget s' ''pdns.example.com'' QC_FIELD = None"
    by (simp_all add: k)
  with run' have "\<exists>s'. DeleteOp_Run ?q ex_store3 = Inr (''Deleted all records for example.com.'', s')
          \<and> map_of s' ''pdns.example.com'' = None
          \<and> hget s' ''pdns.example.com'' QC_FIELD = None" by blast
  with h1 h2 c d1 d2 show ?thesis by blast
qed

theorem delete_whole_domain_counterexample:
  "map_of ex_store3 ''pdns.example.com'' \<noteq> None
   \<and> map_of ([] :: store) ''pdns.example.com'' = None
   \<and> DeleteOp_Run (q_of ''example.com'' None) ex_store3
       = Inr (''Deleted all records for example.com.'', [])
   \<and> DeleteOp_Run (q_of ''example.com'' None) []
       = Inr (''Deleted all records for example.com.'', [])"
  by code_simp

text \<open>
  C10, as amended. A delete with exactly one filter whose query returns the answers
  \<open>rv\<close>, not empty, reports \<open>length rv\<close> deletions and leaves, under the key of
  the domain, no field of \<open>rv\<close>, the counter field TXT/QC raised by 1 unless it is one
  of the fields of \<open>rv\<close> (then it is deleted with them), and every other field as it
  was.
\<close>

theorem delete_one_filter:
  assumes one: "(truthy (op_record q) = None) \<noteq> (truthy (op_data q) = None)"
    and qr: "Query q None False s = Inr (rv, s1)"
    and ne: "rv \<noteq> []"
  shows "\<exists>s' n.
           DeleteOp_Run q s =
             Inr (''Deleted '' @ str_int (int (length rv)) @ '' records from '' @ op_domain q @ ''.'', s')
           \<and> counter_of s (REDIS_PREFIX @ op_domain q) = Some n
           \<and> (\<forall>f. hget s' (REDIS_PREFIX @ op_domain q) f =
                  (if f \<in> fields_of rv then None
                   else if f = QC_FIELD then Some (str_int (n + 1))
                   else hget s (REDIS_PREFIX @ op_domain q) f))
           \<and> (QC_FIELD \<notin> fields_of rv \<longrightarrow> counter_of s' (REDIS_PREFIX @ op_domain q) = Some (n + 1))
           \<and> (QC_FIELD \<in> fields_of rv \<longrightarrow> hget s' (REDIS_PREFIX @ op_domain q) QC_FIELD = None)"
proof -
  let ?key = "REDIS_PREFIX @ op_domain q"
  from Query_plain_effect[OF qr] ne have "counted s (pdns_key_of q None) s1" by simp
  then obtain n where n: "counter_of s ?key = Some n"
    and s1: "s1 = hset s ?key QC_FIELD (str_int (n + 1))"
    by (auto simp: counted_def pdns_key_None)
  obtain s' c' where each: "hdel_each ?key rv (s1, 0) = (s', c')"
    by (cases "hdel_each ?key rv (s1, 0)")
  from hdel_each_effect[OF each] have c': "c' = int (length rv)"
    and h: "\<forall>k f. hget s' k f = (if k = ?key \<and> f \<in> fields_of rv then None else hget s1 k f)"
    by auto
  have run: "DeleteOp_Run q s =
      Inr (''Deleted '' @ str_int (int (length rv)) @ '' records from '' @ op_domain q @ ''.'', s')"
    using one qr each c' by (auto simp: DeleteOp_Run_def split: option.splits)
  have fr: "\<forall>f. hget s' ?key f =
                  (if f \<in> fields_of rv then None
                   else if f = QC_FIELD then Some (str_int (n + 1))
                   else hget s ?key f)"
    using h s1 by (simp add: hget_hset)
  have "QC_FIELD \<notin> fields_of rv \<longrightarrow> counter_of s' ?key = Some (n + 1)"
    using fr by (simp add: counter_of_def py_int_str_int)
  moreover have "QC_FIELD \<in> fields_of rv \<longrightarrow> hget s' ?key QC_FIELD = None"
    using fr by simp
  ultimately show ?thesis using run n fr by blast
qed

theorem delete_one_filter_witness:
  "((truthy (op_record (q_of ''example.com'' (Some ''A''))) = None)
      \<noteq> (truthy (op_data (q_of ''example.com'' (Some ''A''))) = None))
   \<and> (\<exists>rv s1. Query (q_of ''example.com'' (Some ''A'')) None False ex_store = Inr (rv, s1)
         \<and> rv \<noteq> [] \<and> QC_FIELD \<notin> fields_of rv)
   \<and> counter_of ex_store ''pdns.example.com'' = Some 41
   \<and> (\<exists>s'. DeleteOp_Run (q_of ''example.com'' (Some ''A'')) ex_store
              = Inr (''Deleted 2 records from example.com.'', s')
          \<and> counter_of s' ''pdns.example.com'' = Some 42)"
proof -
  let ?q = "q_of ''example.com'' (Some ''A'')"
  let ?rv = "[(''example.com'', ''A'', ''300'', ''1.2.3.4''), (''example.com'', ''A'', ''60'', ''5.6.7.8'')]"
  have h1: "(truthy (op_record ?q) = None) \<noteq> (truthy (op_data ?q) = None)"
    by (simp add: q_of_def truthy_def)
  have h2: "Query ?q None False ex_store
      = Inr (?rv,
         [(''pdns.example.com'',
           [(''A'' @ [TAB] @ ''1.2.3.4'', ''300''), (''A'' @ [TAB] @ ''5.6.7.8'', ''60''),
            (''TXT'' @ [TAB] @ ''QC'', ''42'')]),
          (''pdns.*.bar.com'', [(''A'' @ [TAB] @ ''9.9.9.9'', ''120'')])])"
    by code_simp
  have h3: "?rv \<noteq> []" by simp
  have h4: "QC_FIELD \<notin> fields_of ?rv" by (simp add: fields_of_def QC_FIELD_def)
  have c: "counter_of ex_store ''pdns.example.com'' = Some 41" by code_simp
  have l: "str_int (int (length ?rv)) = ''2''" by code_simp
  have k: "REDIS_PREFIX @ op_domain ?q = ''pdns.example.com''" by (simp add: REDIS_PREFIX_def q_of_def)
  from delete_one_filter[OF h1 h2 h3] obtain s' n where
    run: "DeleteOp_Run ?q ex_store =
            Inr (''Deleted '' @ str_int (int (length ?rv)) @ '' records from '' @ op_domain ?q @ ''.'', s')"
    and n: "counter_of ex_store (REDIS_PREFIX @ op_domain ?q) = Some n"
    and cnt: "QC_FIELD \<notin> fields_of ?rv \<longrightarrow> counter_of s' (REDIS_PREFIX @ op_domain ?q) = Some (n + 1)"
    by blast
  from n c have "n = 41" by (simp add: k)
  with cnt h4 have c': "counter_of s' ''pdns.example.com'' = Some 42" by (simp add: k)
  have "op_domain ?q = ''example.com''" by (simp add: q_of_def)
  with run l have run': "DeleteOp_Run ?q ex_store = Inr (''Deleted 2 records from example.com.'', s')"
    by simp
  from h2 h3 h4 have "\<exists>rv s1. Query ?q None False ex_store = Inr (rv, s1) \<and> rv \<noteq> [] \<and> QC_FIELD \<notin> fields_of rv"
    by blast
  with h1 c run' c' show ?thesis by blast
qed

theorem delete_one_filter_counterexample:
  "Query (q_of ''example.com'' (Some ''TXT'')) None False ex_store3
     = Inr ([(''example.com'', ''TXT'', ''5'', ''QC''), (''example.com'', ''TXT'', ''300'', ''hello'')],
            [(''pdns.example.com'',
              [(''TXT'' @ [TAB] @ ''QC'', ''6''), (''TXT'' @ [TAB] @ ''hello'', ''300''),
               (''A'' @ [TAB] @ ''1.2.3.4'', ''60'')])])
   \<and> counter_of ex_store3 ''pdns.example.com'' = Some 5
   \<and> DeleteOp_Run (q_of ''example.com'' (Some ''TXT'')) ex_store3
       = Inr (''Deleted 2 records from example.com.'',
              [(''pdns.example.com'', [(''A'' @ [TAB] @ ''1.2.3.4'', ''60'')])])
   \<and> hget [(''pdns.example.com'', [(''A'' @ [TAB] @ ''1.2.3.4'', ''60'')])] ''pdns.example.com'' QC_FIELD = None
   \<and> counter_of [(''pdns.example.com'', [(''A'' @ [TAB] @ ''1.2.3.4'', ''60'')])] ''pdns.example.com'' \<noteq> Some 6"
  by code_simp

section \<open>The protocol loop\<close>













lemma SendRecord_self_colon:
  assumes "startswith dat MAGIC_SELF_IP" and "CHR '':'' \<in> set dat"
  shows "\<exists>e. SendRecord ch (d, r, t, dat) = (Some e, ch)"
  using assms by (auto simp: SendRecord_def split: option.splits)

text \<open>
  C7. The record (self.example.com, A, 300, self:OK:http://probe/) with the local address
  known and a probe that answers with the expected prefix: \<open>MagicTest\<close> on the
  expected prefix and the URL would pass, but \<open>SendRecord\<close> raises NameError before it
  calls \<open>MagicTest\<close>, and the request is answered by a LOG line and FAIL, with no DATA
  line.
\<close>

theorem self_test_never_runs:
  "MagicTest ex_world ex_chatter ''OK'' ''http://probe/'' 1000
     = (None, ex_chatter\<lparr> magic_tests :=
                 [(''http://probe/'', \<lparr> mr_time = Some 1000, mr_ok = Some True \<rparr>)] \<rparr>)
   \<and> SendRecord ex_chatter (''self.example.com'', ''A'', ''300'', ''self:OK:http://probe/'')
       = (Some (NameError ''global name 'want' is not defined''), ex_chatter)
   \<and> outfile (fst (snd (main_loop ex_world ex_chatter ex_store4 [ex_self_request])))
       = [log_line ''Internal Error: global name 'want' is not defined'', ''FAIL'']"
  by code_simp

lemma send_records_skip_counter:
  "send_records ch (rs1 @ (d, ''TXT'', ttl, ''QC'') # rs2) = send_records ch (rs1 @ rs2)"
proof (induction rs1 arbitrary: ch)
  case Nil
  show ?case by simp
next
  case (Cons a rs1)
  obtain d1 r1 t1 x1 where a: "a = (d1, r1, t1, x1)" by (cases a)
  show ?case using Cons.IH a
    by (simp split: prod.splits option.splits)
qed

lemma Query_all_includes_counter:
  assumes nr: "truthy (op_record q) = None" and nd: "truthy (op_data q) = None"
    and c: "hget s (pdns_key_of q dm) QC_FIELD = Some c"
    and qr: "Query q dm w s = Inr (rv, s')"
  shows "(op_domain q, ''TXT'', c, ''QC'') \<in> set rv"
proof -
  let ?h = "hgetall s (pdns_key_of q dm)"
  from c have mem: "(''TXT'' @ [TAB] @ ''QC'', c) \<in> set ?h"
    by (simp add: hget_hgetall map_of_SomeD QC_FIELD_def)
  obtain rv0 where sc: "scan_for q ?h = Inr rv0"
    using qr nr by (cases "scan_for q ?h") (simp_all add: Query_scan)
  from scan_for_complete[OF scan_for_Inr_wf[OF sc], of q] sc
  have all: "\<forall>r x t. (r @ [TAB] @ x, t) \<in> set ?h \<and> TAB \<notin> set r \<and> accepts q r x
                \<longrightarrow> (op_domain q, r, t, x) \<in> set rv0"
    by simp
  have "TAB \<notin> set ''TXT''" by (simp add: TAB_def)
  moreover have "accepts q ''TXT'' ''QC''" using nr nd by (simp add: accepts_def)
  ultimately have in0: "(op_domain q, ''TXT'', c, ''QC'') \<in> set rv0" using all mem by blast
  then have "rv0 \<noteq> []" by auto
  with qr nr sc have "rv = rv0" by (auto simp: Query_scan split: sum.splits)
  with in0 show ?thesis by simp
qed

text \<open>
  C8. An answer of type TXT with the data QC adds no line to the output, wherever it
  stands among the answers that \<open>Lookup\<close> sends. The query without filters does return
  it: when the counter field is present under the key of the query, it is among the
  answers.
\<close>

theorem counter_record_not_emitted:
  "send_records ch (rs1 @ (d, ''TXT'', ttl, ''QC'') # rs2) = send_records ch (rs1 @ rs2)
   \<and> send_records ch [(d, ''TXT'', ttl, ''QC'')] = (None, ch)
   \<and> (truthy (op_record q) = None \<and> truthy (op_data q) = None
        \<and> hget s (pdns_key_of q dm) QC_FIELD = Some c
        \<and> Query q dm w s = Inr (rv, s')
      \<longrightarrow> (op_domain q, ''TXT'', c, ''QC'') \<in> set rv)"
  using send_records_skip_counter[of ch rs1 d ttl rs2] Query_all_includes_counter[of q s dm c w rv s']
  by simp

theorem counter_record_not_emitted_witness:
  "truthy (op_record (q_of ''example.com'' None)) = None
   \<and> truthy (op_data (q_of ''example.com'' None)) = None
   \<and> hget ex_store4 (pdns_key_of (q_of ''example.com'' None) None) QC_FIELD = Some ''7''
   \<and> (\<exists>rv s'. Query (q_of ''example.com'' None) None False ex_store4 = Inr (rv, s')
         \<and> (''example.com'', ''TXT'', ''7'', ''QC'') \<in> set rv
         \<and> send_records ex_chatter rv
             = (None, ex_chatter\<lparr> outfile := [data_line ''example.com'' ''A'' ''300'' ''1.2.3.4''] \<rparr>))"
proof -
  let ?q = "q_of ''example.com'' None"
  let ?rv = "[(''example.com'', ''A'', ''300'', ''1.2.3.4''), (''example.com'', ''TXT'', ''7'', ''QC'')]"
  have h1: "truthy (op_record ?q) = None" by (simp add: q_of_def truthy_def)
  have h2: "truthy (op_data ?q) = None" by (simp add: q_of_def truthy_def)
  have h3: "hget ex_store4 (pdns_key_of ?q None) QC_FIELD = Some ''7''" by code_simp
  have h4: "Query ?q None False ex_store4
      = Inr (?rv,
         [(''pdns.example.com'',
           [(''A'' @ [TAB] @ ''1.2.3.4'', ''300''), (''TXT'' @ [TAB] @ ''QC'', ''8'')]),
          (''pdns.self.example.com'',
           [(''A'' @ [TAB] @ ''self:OK:http://probe/'', ''300'')])])"
    by code_simp
  have o: "send_records ex_chatter ?rv
             = (None, ex_chatter\<lparr> outfile := [data_line ''example.com'' ''A'' ''300'' ''1.2.3.4''] \<rparr>)"
    by code_simp
  from counter_record_not_emitted[where q = ?q and s = ex_store4 and dm = None and c = "''7''"
      and w = False and rv = ?rv] h1 h2 h3 h4
  have "(''example.com'', ''TXT'', ''7'', ''QC'') \<in> set ?rv" by (simp add: q_of_def)
  with h1 h2 h3 h4 o show ?thesis by blast
qed

section \<open>The stores the program builds\<close>

text \<open>
  The hypotheses on the store in the theorems above (a counter that holds an integer,
  fields that hold a tab) are met by the empty store and kept by every operation: by
  \<open>AddOp.Run\<close>, by \<open>Query\<close> and by \<open>DeleteOp.Run\<close>.
\<close>

lemma store_ok_empty: "store_ok []"
  by (simp add: store_ok_def fields_ok_def hgetall_def counter_of_def hget_def)

lemma fields_ok_update:
  "fields_ok h \<Longrightarrow> TAB \<in> set f \<Longrightarrow> fields_ok (AList.update f v h)"
  using set_update_subset[of f v h] by (auto simp: fields_ok_def)

lemma fields_ok_delete: "fields_ok h \<Longrightarrow> fields_ok (AList.delete f h)"
  using set_delete_subset[of f h] by (auto simp: fields_ok_def)

lemma store_ok_hset:
  assumes "store_ok s" and "TAB \<in> set f" and "f = QC_FIELD \<longrightarrow> py_int v \<noteq> None"
  shows "store_ok (hset s k f v)"
  using assms
  by (auto simp: store_ok_def hgetall_hset counter_of_def hget_hset fields_ok_update
           split: option.splits)

lemma store_ok_counted: "store_ok s \<Longrightarrow> counted s k s' \<Longrightarrow> store_ok s'"
  by (auto simp: counted_def intro!: store_ok_hset simp: QC_FIELD_tab py_int_str_int)

lemma store_ok_Query:
  assumes "store_ok s" and "Query q dm w s = Inr (rv, s')"
  shows "store_ok s'"
  using Query_effect[OF assms(2)] assms(1) store_ok_counted by blast

lemma store_ok_AddOp_Run:
  assumes "store_ok s" and "AddOp_init domain rec dat ttl = Inr a"
    and "AddOp_Run a s = Inr (msg, s')"
  shows "store_ok s'"
proof -
  from AddOp_init_Inr[OF assms(2)] obtain q :: queryop and r x n where
    a: "a = \<lparr> op_domain = op_domain q, op_record = Some r, op_data = Some x,
              op_ttl = str_int n \<rparr>"
    by blast
  with assms(3) have "s' = hset s (REDIS_PREFIX @ op_domain q) (r @ [TAB] @ x) (str_int n)"
    by (simp add: AddOp_Run_def)
  with assms(1) show ?thesis by (simp add: store_ok_hset py_int_str_int)
qed

lemma store_ok_hdel: "store_ok s \<Longrightarrow> store_ok (fst (hdel s k f))"
  by (auto simp: store_ok_def hgetall_hdel fields_ok_delete counter_of_def hget_hdel
           split: option.splits)

lemma store_ok_hdel_each:
  "store_ok s \<Longrightarrow> hdel_each key rv (s, c) = (s', c') \<Longrightarrow> store_ok s'"
proof (induction rv arbitrary: s c)
  case Nil
  then show ?case by simp
next
  case (Cons a rv)
  obtain d r t x where a: "a = (d, r, t, x)" by (cases a)
  obtain sa b where hd: "hdel s key (join [TAB] [r, x]) = (sa, b)"
    by (cases "hdel s key (join [TAB] [r, x])")
  with store_ok_hdel[OF Cons.prems(1), of key "join [TAB] [r, x]"] have "store_ok sa" by simp
  moreover from Cons.prems(2) a hd
  have "hdel_each key rv (sa, c + (if b then 1 else 0)) = (s', c')" by simp
  ultimately show ?case using Cons.IH by blast
qed

lemma store_ok_delete: "store_ok s \<Longrightarrow> store_ok (fst (delete s k))"
  by (auto simp: store_ok_def hgetall_def counter_of_def hget_def map_of_delete_store fields_ok_def
           split: option.splits)

lemma store_ok_DeleteOp_Run:
  assumes "store_ok s" and "DeleteOp_Run q s = Inr (msg, s')"
  shows "store_ok s'"
proof (cases "truthy (op_record q)")
  case None
  show ?thesis
  proof (cases "truthy (op_data q)")
    case N2: None
    with None assms show ?thesis by (auto simp: DeleteOp_Run_def store_ok_delete)
  next
    case (Some x)
    with None assms(2) obtain rv s1 c' where
      qr: "Query q None False s = Inr (rv, s1)"
      and each: "hdel_each (REDIS_PREFIX @ op_domain q) rv (s1, 0) = (s', c')"
      by (auto simp: DeleteOp_Run_def split: sum.splits prod.splits)
    from store_ok_Query[OF assms(1) qr] each show ?thesis by (rule store_ok_hdel_each)
  qed
next
  case (Some r)
  show ?thesis
  proof (cases "truthy (op_data q)")
    case None
    with Some assms(2) obtain rv s1 c' where
      qr: "Query q None False s = Inr (rv, s1)"
      and each: "hdel_each (REDIS_PREFIX @ op_domain q) rv (s1, 0) = (s', c')"
      by (auto simp: DeleteOp_Run_def split: sum.splits prod.splits)
    from store_ok_Query[OF assms(1) qr] each show ?thesis by (rule store_ok_hdel_each)
  next
    case S2: (Some x)
    with Some assms(2) have "s' = fst (hdel s (REDIS_PREFIX @ op_domain q) (join [TAB] [r, x]))"
      by (auto simp: DeleteOp_Run_def split: prod.splits)
    with assms(1) show ?thesis by (simp add: store_ok_hdel)
  qed
qed

end
